theory Spec2Isabelle
  imports Main "HOL-Library.AList"
begin

section \<open>Data model of task_manager.py\<close>

text \<open>
  The project file is one JSON document. Its dictionaries become records; a key that
  the code reads with \<^verbatim>\<open>.get(key, default)\<close> is a field that holds the default when
  the key is absent (\<open>[]\<close> for the sequences, \<open>0\<close> for the cursor), which is what
  every reader in the code sees. Statuses, phases, modes and ids stay strings, as in the
  JSON. A task is a stage with one more key, \<^verbatim>\<open>dependencies\<close>, so the loops of the code
  that run over stages or tasks alike are functions over the extensible record.
  Two values can be \<^verbatim>\<open>None\<close> in the code and are options here: the debater id of a
  response (\<^verbatim>\<open>--debater-id\<close> not given) and the question of a project (key absent).
  The clock \<^verbatim>\<open>_now()\<close> is a parameter \<open>now\<close> of every command that reads it.
  A string is a list of characters, one for each character of the Python string.
\<close>

record stage =
  item_id :: string
  agent :: string
  description :: string
  status :: string
  result :: string
  assigned_at :: string
  completed_at :: string

record task = stage +
  dependencies :: "string list"

record debater =
  debater_id :: string
  debater_agent :: string
  perspective :: string
  added_at :: string

record response =
  resp_debater_id :: "string option"
  content :: string
  submitted_at :: string
  resp_phase :: string

record debate_round =
  round_number :: nat
  phase :: string
  started_at :: string
  responses :: "response list"

record project =
  name :: string
  mode :: string
  goal :: string
  created_at :: string
  workspace :: string
  stages :: "stage list"
  current_stage :: int
  tasks :: "task list"
  debaters :: "debater list"
  rounds :: "debate_round list"
  question :: "string option"

text \<open>\<^verbatim>\<open>VALID_STATUSES\<close>\<close>

definition VALID_STATUSES :: "string list" where
  "VALID_STATUSES = [''pending'', ''in-progress'', ''done'', ''failed'', ''skipped'']"

subsection \<open>Data constructors\<close>

text \<open>\<^verbatim>\<open>agent or stage_id\<close>: the empty string is falsy.\<close>

definition make_stage :: "string \<Rightarrow> string \<Rightarrow> string \<Rightarrow> stage" where
  "make_stage stage_id desc ag =
     \<lparr>item_id = stage_id, agent = (if ag = [] then stage_id else ag), description = desc,
      status = ''pending'', result = [], assigned_at = [], completed_at = []\<rparr>"

definition make_task :: "string \<Rightarrow> string \<Rightarrow> string \<Rightarrow> string list \<Rightarrow> task" where
  "make_task task_id ag desc deps =
     \<lparr>item_id = task_id, agent = (if ag = [] then task_id else ag), description = desc,
      status = ''pending'', result = [], assigned_at = [], completed_at = [],
      dependencies = deps\<rparr>"

section \<open>DAG helpers\<close>

subsection \<open>compute_ready_tasks\<close>

text \<open>The set comprehension \<^verbatim>\<open>{t["id"] for t in tasks if t["status"] == "done"}\<close>.\<close>

definition done_ids :: "task list \<Rightarrow> string set" where
  "done_ids ts = set (map item_id (filter (\<lambda>t. status t = ''done'') ts))"

text \<open>The loop that appends to \<^verbatim>\<open>ready\<close>, in task order.\<close>

fun ready_loop :: "string set \<Rightarrow> task list \<Rightarrow> task list" where
  "ready_loop dn [] = []"
| "ready_loop dn (t # ts) =
     (if status t \<noteq> ''pending'' then ready_loop dn ts
      else if (\<forall>d \<in> set (dependencies t). d \<in> dn) then t # ready_loop dn ts
      else ready_loop dn ts)"

definition compute_ready_tasks :: "project \<Rightarrow> task list" where
  "compute_ready_tasks proj = ready_loop (done_ids (tasks proj)) (tasks proj)"

subsection \<open>detect_cycles\<close>

text \<open>
  The three variables that the nested function \<^verbatim>\<open>dfs\<close> shares with \<^verbatim>\<open>detect_cycles\<close>
  are the state that the model passes along.
\<close>

record dfs_state =
  visited :: "string set"
  stack :: "string set"
  cycles :: "string list"

text \<open>
  The dictionary \<^verbatim>\<open>tasks\<close> of \<^verbatim>\<open>detect_cycles\<close> is an association list in the order in
  which its keys were first inserted, which is the order a Python dict iterates in; a
  later task with the same id overwrites the value and keeps the position
  (\<open>AList.update\<close>). \<^verbatim>\<open>tasks.get(node, [])\<close> is \<open>dict_get\<close>.
\<close>

type_synonym deps_dict = "(string \<times> string list) list"

definition dict_get :: "deps_dict \<Rightarrow> string \<Rightarrow> string list" where
  "dict_get d k = (case map_of d k of None \<Rightarrow> [] | Some v \<Rightarrow> v)"

definition tasks_dict :: "task list \<Rightarrow> deps_dict" where
  "tasks_dict ts = foldl (\<lambda>d t. AList.update (item_id t) (dependencies t) d) [] ts"

text \<open>
  \<^verbatim>\<open>dfs\<close> and its loop over the dependencies of \<^verbatim>\<open>node\<close>. Both return the flag that
  the Python function returns and the state it leaves; a \<^verbatim>\<open>return True\<close> inside the loop
  skips \<^verbatim>\<open>stack.discard(node)\<close>.

  Every call of \<^verbatim>\<open>dfs\<close> takes one frame of the interpreter, and the interpreter raises
  \<^verbatim>\<open>RecursionError\<close> at a call that would exceed its recursion limit. The code never
  sets the limit (the default of the interpreter is 1000) and never catches the
  exception. \<open>frames\<close> is the number of nested calls of \<^verbatim>\<open>dfs\<close> that the interpreter
  still allows: the limit less the frames in use when \<^verbatim>\<open>detect_cycles\<close> runs. A call
  with no frame left raises; the calls inside a call have one frame less.
\<close>

datatype py_exception = RecursionError

fun dfs :: "nat \<Rightarrow> deps_dict \<Rightarrow> string \<Rightarrow> dfs_state \<Rightarrow> py_exception + bool \<times> dfs_state"
  and dfs_deps ::
    "nat \<Rightarrow> deps_dict \<Rightarrow> string \<Rightarrow> string list \<Rightarrow> dfs_state \<Rightarrow> py_exception + bool \<times> dfs_state"
where
  "dfs frames d node st =
     (if frames = 0 then Inl RecursionError
      else
        case dfs_deps (frames - 1) d node (dict_get d node)
               (st\<lparr>visited := insert node (visited st), stack := insert node (stack st)\<rparr>) of
          Inl e \<Rightarrow> Inl e
        | Inr (found, st') \<Rightarrow>
            if found then Inr (True, st')
            else Inr (False, st'\<lparr>stack := stack st' - {node}\<rparr>))"
| "dfs_deps frames d node [] st = Inr (False, st)"
| "dfs_deps frames d node (dep # rest) st =
     (if dep \<notin> visited st then
        (case dfs frames d dep st of
           Inl e \<Rightarrow> Inl e
         | Inr (found, st') \<Rightarrow>
             if found then Inr (True, st') else dfs_deps frames d node rest st')
      else if dep \<in> stack st then
        Inr (True, st\<lparr>cycles := cycles st @ [node @ '' -> '' @ dep]\<rparr>)
      else dfs_deps frames d node rest st)"

declare dfs.simps [simp del] dfs_deps.simps [simp del]

text \<open>
  The loop \<^verbatim>\<open>for tid in tasks\<close> (the flag that \<^verbatim>\<open>dfs\<close> returns is dropped, an exception
  ends the loop) and the function.
\<close>

fun detect_loop ::
  "nat \<Rightarrow> deps_dict \<Rightarrow> string list \<Rightarrow> dfs_state \<Rightarrow> py_exception + dfs_state" where
  "detect_loop frames d [] st = Inr st"
| "detect_loop frames d (tid # tids) st =
     (if tid \<notin> visited st then
        (case dfs frames d tid st of
           Inl e \<Rightarrow> Inl e
         | Inr (found, st') \<Rightarrow> detect_loop frames d tids st')
      else detect_loop frames d tids st)"

definition detect_cycles :: "nat \<Rightarrow> project \<Rightarrow> py_exception + string list" where
  "detect_cycles frames proj =
     (let d = tasks_dict (tasks proj)
      in case detect_loop frames d (map fst d) \<lparr>visited = {}, stack = {}, cycles = []\<rparr> of
           Inl e \<Rightarrow> Inl e
         | Inr st \<Rightarrow> Inr (cycles st))"

section \<open>Commands\<close>

text \<open>
  A command loads the project record, works on it in memory and ends in one of four
  ways: \<^verbatim>\<open>sys.exit(1)\<close> after a message on stderr (\<open>Exit\<close>, with the record as it is
  in memory at that moment; nothing is written), an exception that nothing catches
  (\<open>Raised\<close>, again with the record in memory and nothing written),
  \<^verbatim>\<open>save_project\<close> (\<open>Saved\<close>, with the record written and the lines printed on
  stdout), or a plain return without saving (\<open>Returned\<close>). The formatted lines are values of \<open>message\<close> that carry what each
  line is built from. The arguments are those of \<^verbatim>\<open>argparse\<close> after parsing: an
  option that was not given is \<open>None\<close>, and the comma-separated lists \<^verbatim>\<open>--deps\<close> and
  \<^verbatim>\<open>--pipeline\<close> are the lists of their stripped non-empty parts.
\<close>

datatype error =
    AlreadyExists string
  | PipelineRequired
  | UnknownMode string
  | WrongMode string
  | CycleDetected "string list"
  | InvalidStatus string
  | StageNotFound string
  | TaskNotFound string
  | UnsupportedMode string
  | NotFound string
  | NoActiveRound
  | NoRoundData
  | UnknownAction string

datatype message =
    TaskAdded string "string list"
  | DebaterAdded string "string option"
  | AutoAdvance string
  | NewlyUnlocked "string list"
  | StatusUpdated string string
  | ResultRecorded string nat
  | RoundStarted nat string nat
  | ResponseSubmitted "string option" nat string
  | CrossReviewHeader nat
  | ReviewPrompt string "(string option \<times> string) list"
  | SynthesisSummary nat nat
  | NoRounds
  | RoundStatus nat string "(string \<times> bool) list"
  | ProjectReset

datatype outcome =
    Exit error project
  | Raised py_exception project
  | Saved project "message list"
  | Returned project "message list"

text \<open>The record in memory when the command ends, and the lines it printed on stdout.\<close>

fun memory :: "outcome \<Rightarrow> project" where
  "memory (Exit e p) = p"
| "memory (Raised x p) = p"
| "memory (Saved p ms) = p"
| "memory (Returned p ms) = p"

fun printed :: "outcome \<Rightarrow> message list" where
  "printed (Exit e p) = []"
| "printed (Raised x p) = []"
| "printed (Saved p ms) = ms"
| "printed (Returned p ms) = ms"

text \<open>The project file after the command, given the file before it.\<close>

fun persisted :: "project \<Rightarrow> outcome \<Rightarrow> project" where
  "persisted old (Saved p ms) = p"
| "persisted old (Exit e p) = old"
| "persisted old (Raised x p) = old"
| "persisted old (Returned p ms) = old"

text \<open>\<^verbatim>\<open>x or ""\<close> for an optional argument.\<close>

fun or_empty :: "string option \<Rightarrow> string" where
  "or_empty None = []"
| "or_empty (Some s) = s"

subsection \<open>cmd_init\<close>

text \<open>
  \<open>exists\<close> says whether the project file is there, \<open>force\<close> is \<^verbatim>\<open>--force\<close>. The
  result is the record that \<^verbatim>\<open>save_project\<close> writes.
\<close>

definition cmd_init ::
  "string \<Rightarrow> bool \<Rightarrow> bool \<Rightarrow> string \<Rightarrow> string \<Rightarrow> string option \<Rightarrow> string list \<Rightarrow> string option
     \<Rightarrow> error + project" where
  "cmd_init now exists force nm md goal_arg pipeline workspace_arg =
     (if exists \<and> \<not> force then Inl (AlreadyExists nm)
      else
        let proj = \<lparr>name = nm, mode = md, goal = or_empty goal_arg, created_at = now,
                    workspace = or_empty workspace_arg, stages = [], current_stage = 0,
                    tasks = [], debaters = [], rounds = [], question = None\<rparr>
        in if md = ''linear'' then
             (if pipeline = [] then Inl PipelineRequired
              else Inr (proj\<lparr>stages := map (\<lambda>s. make_stage s [] []) pipeline,
                              current_stage := 0\<rparr>))
           else if md = ''dag'' then Inr (proj\<lparr>tasks := []\<rparr>)
           else if md = ''debate'' then
             Inr (proj\<lparr>debaters := [], rounds := [], question := Some (or_empty goal_arg)\<rparr>)
           else Inl (UnknownMode md))"

subsection \<open>cmd_add\<close>

text \<open>
  The task is appended to the record in memory before \<^verbatim>\<open>detect_cycles\<close> runs. A
  \<^verbatim>\<open>RecursionError\<close> from \<^verbatim>\<open>detect_cycles\<close> passes through \<^verbatim>\<open>cmd_add\<close> and ends the
  process before \<^verbatim>\<open>save_project\<close>.
\<close>

definition cmd_add ::
  "nat \<Rightarrow> project \<Rightarrow> string \<Rightarrow> string option \<Rightarrow> string option \<Rightarrow> string list \<Rightarrow> outcome" where
  "cmd_add frames proj task_id agent_arg desc_arg deps =
     (if mode proj \<noteq> ''dag'' then Exit (WrongMode ''add'') proj
      else
        let task = make_task task_id (or_empty agent_arg) (or_empty desc_arg) deps;
            proj' = proj\<lparr>tasks := tasks proj @ [task]\<rparr>
        in case detect_cycles frames proj' of
             Inl e \<Rightarrow> Raised e proj'
           | Inr found_cycles \<Rightarrow>
               if found_cycles \<noteq> [] then Exit (CycleDetected found_cycles) proj'
               else Saved proj' [TaskAdded task_id deps])"

subsection \<open>cmd_add_debater\<close>

definition cmd_add_debater ::
  "string \<Rightarrow> project \<Rightarrow> string \<Rightarrow> string option \<Rightarrow> string option \<Rightarrow> outcome" where
  "cmd_add_debater now proj did agent_arg perspective_arg =
     (if mode proj \<noteq> ''debate'' then Exit (WrongMode ''add-debater'') proj
      else
        let deb = \<lparr>debater_id = did,
                   debater_agent = (if or_empty agent_arg = [] then did else or_empty agent_arg),
                   perspective = or_empty perspective_arg, added_at = now\<rparr>
        in Saved (proj\<lparr>debaters := debaters proj @ [deb]\<rparr>) [DebaterAdded did perspective_arg])"

subsection \<open>cmd_update\<close>

text \<open>
  The loops \<^verbatim>\<open>for item in items: if item["id"] == target_id: ...; break\<close> touch the first
  item that carries the id: \<open>find_item\<close> is its index, \<open>None\<close> when the loop ends with
  \<^verbatim>\<open>found\<close> still false.
\<close>

fun find_item :: "string \<Rightarrow> 'a stage_scheme list \<Rightarrow> nat option" where
  "find_item target [] = None"
| "find_item target (item # items) =
     (if item_id item = target then Some 0 else map_option Suc (find_item target items))"

text \<open>The assignments to one stage or task in \<^verbatim>\<open>cmd_update\<close>.\<close>

definition set_item_status :: "string \<Rightarrow> string \<Rightarrow> 'a stage_scheme \<Rightarrow> 'a stage_scheme" where
  "set_item_status now st item =
     (let item1 = item\<lparr>status := st\<rparr>
      in if st = ''in-progress'' then item1\<lparr>assigned_at := now\<rparr>
         else if st \<in> {''done'', ''failed'', ''skipped''} then item1\<lparr>completed_at := now\<rparr>
         else item1)"

definition cmd_update :: "string \<Rightarrow> project \<Rightarrow> string \<Rightarrow> string \<Rightarrow> outcome" where
  "cmd_update now proj target_id st =
     (if st \<notin> set VALID_STATUSES then Exit (InvalidStatus st) proj
      else if mode proj = ''linear'' then
        (case find_item target_id (stages proj) of
           None \<Rightarrow> Exit (StageNotFound target_id) proj
         | Some i \<Rightarrow>
             let stages' = (stages proj)[i := set_item_status now st (stages proj ! i)];
                 advance = (st = ''done'' \<and> int i = current_stage proj);
                 proj' = proj\<lparr>stages := stages',
                              current_stage := (if advance then int i + 1 else current_stage proj)\<rparr>
             in Saved proj'
                  ((if advance \<and> i + 1 < length stages'
                    then [AutoAdvance (item_id (stages' ! (i + 1)))] else [])
                   @ [StatusUpdated target_id st]))
      else if mode proj = ''dag'' then
        (case find_item target_id (tasks proj) of
           None \<Rightarrow> Exit (TaskNotFound target_id) proj
         | Some i \<Rightarrow>
             let proj' = proj\<lparr>tasks := (tasks proj)[i := set_item_status now st (tasks proj ! i)]\<rparr>;
                 newly_ready = compute_ready_tasks proj'
             in Saved proj'
                  ((if st = ''done'' \<and> newly_ready \<noteq> []
                    then [NewlyUnlocked (map item_id newly_ready)] else [])
                   @ [StatusUpdated target_id st]))
      else Exit (UnsupportedMode (mode proj)) proj)"

subsection \<open>cmd_result\<close>

definition record_item :: "string \<Rightarrow> string \<Rightarrow> 'a stage_scheme \<Rightarrow> 'a stage_scheme" where
  "record_item now result_text item =
     (let item1 = item\<lparr>result := result_text\<rparr>
      in if status item1 = ''pending''
         then item1\<lparr>status := ''in-progress'', assigned_at := now\<rparr>
         else item1)"

definition cmd_result :: "string \<Rightarrow> project \<Rightarrow> string \<Rightarrow> string \<Rightarrow> outcome" where
  "cmd_result now proj target_id result_text =
     (if mode proj = ''linear'' then
        (case find_item target_id (stages proj) of
           None \<Rightarrow> Exit (NotFound target_id) proj
         | Some i \<Rightarrow>
             Saved (proj\<lparr>stages := (stages proj)[i := record_item now result_text (stages proj ! i)]\<rparr>)
                   [ResultRecorded target_id (length result_text)])
      else
        (case find_item target_id (tasks proj) of
           None \<Rightarrow> Exit (NotFound target_id) proj
         | Some i \<Rightarrow>
             Saved (proj\<lparr>tasks := (tasks proj)[i := record_item now result_text (tasks proj ! i)]\<rparr>)
                   [ResultRecorded target_id (length result_text)]))"

subsection \<open>cmd_round\<close>

text \<open>\<^verbatim>\<open>r["content"][:200] + "..." if len(r["content"]) > 200 else r["content"]\<close>\<close>

definition preview :: "string \<Rightarrow> string" where
  "preview c = (if length c > 200 then take 200 c @ ''...'' else c)"

text \<open>The assignment \<^verbatim>\<open>rounds[-1]["phase"] = ...\<close> on a non-empty list.\<close>

definition set_current_phase :: "string \<Rightarrow> debate_round list \<Rightarrow> debate_round list" where
  "set_current_phase ph rs = rs[length rs - 1 := (last rs)\<lparr>phase := ph\<rparr>]"

definition cmd_round ::
  "string \<Rightarrow> project \<Rightarrow> string \<Rightarrow> string option \<Rightarrow> string option \<Rightarrow> outcome" where
  "cmd_round now proj action debater_arg text_arg =
     (if mode proj \<noteq> ''debate'' then Exit (WrongMode ''round'') proj
      else if action = ''start'' then
        (let new_round = \<lparr>round_number = length (rounds proj) + 1, phase = ''initial'',
                          started_at = now, responses = []\<rparr>
         in Saved (proj\<lparr>rounds := rounds proj @ [new_round]\<rparr>)
              [RoundStarted (round_number new_round)
                 (case question proj of Some q \<Rightarrow> q | None \<Rightarrow> goal proj)
                 (length (debaters proj))])
      else if action = ''submit'' then
        (if rounds proj = [] then Exit NoActiveRound proj
         else
           let current_round = last (rounds proj);
               resp = \<lparr>resp_debater_id = debater_arg, content = or_empty text_arg,
                       submitted_at = now, resp_phase = phase current_round\<rparr>;
               current_round' = current_round\<lparr>responses := responses current_round @ [resp]\<rparr>
           in Saved (proj\<lparr>rounds := (rounds proj)[length (rounds proj) - 1 := current_round']\<rparr>)
                [ResponseSubmitted debater_arg (round_number current_round) (phase current_round)])
      else if action = ''cross-review'' then
        (if rounds proj = [] then Exit NoRoundData proj
         else
           let rounds' = set_current_phase ''cross-review'' (rounds proj);
               resps = filter (\<lambda>r. resp_phase r = ''initial'') (responses (last rounds'))
           in Saved (proj\<lparr>rounds := rounds'\<rparr>)
                (CrossReviewHeader (length resps) #
                 concat (map (\<lambda>deb.
                    let others = filter (\<lambda>r. resp_debater_id r \<noteq> Some (debater_id deb)) resps
                    in if others \<noteq> []
                       then [ReviewPrompt (debater_id deb)
                               (map (\<lambda>r. (resp_debater_id r, preview (content r))) others)]
                       else []) (debaters proj))))
      else if action = ''synthesize'' then
        (if rounds proj = [] then Exit NoRoundData proj
         else
           let rounds' = set_current_phase ''synthesis'' (rounds proj);
               all_responses = responses (last rounds')
           in Saved (proj\<lparr>rounds := rounds'\<rparr>)
                [SynthesisSummary
                   (length (filter (\<lambda>r. resp_phase r = ''initial'') all_responses))
                   (length (filter (\<lambda>r. resp_phase r = ''cross-review'') all_responses))])
      else if action = ''status'' then
        (if rounds proj = [] then Returned proj [NoRounds]
         else
           let current_round = last (rounds proj);
               responded = set (map resp_debater_id
                             (filter (\<lambda>r. resp_phase r = phase current_round)
                                (responses current_round)))
           in Returned proj
                [RoundStatus (round_number current_round) (phase current_round)
                   (map (\<lambda>deb. (debater_id deb, Some (debater_id deb) \<in> responded))
                      (debaters proj))])
      else Exit (UnknownAction action) proj)"

subsection \<open>cmd_reset\<close>

definition reset_item :: "'a stage_scheme \<Rightarrow> 'a stage_scheme" where
  "reset_item item = item\<lparr>status := ''pending'', result := [], assigned_at := [], completed_at := []\<rparr>"

definition cmd_reset :: "project \<Rightarrow> outcome" where
  "cmd_reset proj =
     Saved (if mode proj = ''linear''
            then proj\<lparr>stages := map reset_item (stages proj), current_stage := 0\<rparr>
            else if mode proj = ''dag'' then proj\<lparr>tasks := map reset_item (tasks proj)\<rparr>
            else if mode proj = ''debate'' then proj\<lparr>rounds := []\<rparr>
            else proj)
           [ProjectReset]"

subsection \<open>The commands that write the project file\<close>

text \<open>
  \<^verbatim>\<open>cmd_map\<close> restricted to the commands that can change an existing project file;
  \<^verbatim>\<open>status\<close>, \<^verbatim>\<open>next\<close>, \<^verbatim>\<open>ready\<close>, \<^verbatim>\<open>graph\<close>, \<^verbatim>\<open>log\<close> and \<^verbatim>\<open>list\<close> only print.
  \<open>run_commands\<close> is a sequence of invocations, each with its own clock reading, on one
  project file, under an interpreter that leaves \<open>frames\<close> frames to \<^verbatim>\<open>dfs\<close>.
\<close>

datatype command =
    Add string "string option" "string option" "string list"
  | AddDebater string "string option" "string option"
  | Update string string
  | Result string string
  | Round string "string option" "string option"
  | Reset

fun run_command :: "nat \<Rightarrow> string \<Rightarrow> project \<Rightarrow> command \<Rightarrow> outcome" where
  "run_command frames now proj (Add task_id agent_arg desc_arg deps) =
     cmd_add frames proj task_id agent_arg desc_arg deps"
| "run_command frames now proj (AddDebater did agent_arg perspective_arg) =
     cmd_add_debater now proj did agent_arg perspective_arg"
| "run_command frames now proj (Update target_id st) = cmd_update now proj target_id st"
| "run_command frames now proj (Result target_id result_text) =
     cmd_result now proj target_id result_text"
| "run_command frames now proj (Round action debater_arg text_arg) =
     cmd_round now proj action debater_arg text_arg"
| "run_command frames now proj Reset = cmd_reset proj"

fun run_commands :: "nat \<Rightarrow> project \<Rightarrow> (string \<times> command) list \<Rightarrow> project" where
  "run_commands frames proj [] = proj"
| "run_commands frames proj ((now, c) # cs) =
     run_commands frames (persisted proj (run_command frames now proj c)) cs"

section \<open>Notions used in the statements\<close>

text \<open>
  The dependency relation of a task sequence: an edge from the id of a task to each of its
  dependency ids. \<open>dict_rel\<close> is the same for the dictionary that \<open>detect_cycles\<close>
  builds.
\<close>

definition dep_edges :: "task list \<Rightarrow> (string \<times> string) list" where
  "dep_edges ts = concat (map (\<lambda>t. map (\<lambda>x. (item_id t, x)) (dependencies t)) ts)"

definition dep_rel :: "task list \<Rightarrow> (string \<times> string) set" where
  "dep_rel ts = set (dep_edges ts)"

definition dict_rel :: "deps_dict \<Rightarrow> (string \<times> string) set" where
  "dict_rel d = {(n, x). x \<in> set (dict_get d n)}"

text \<open>
  The finished nodes, and the invariant of the search while no cycle has been reported:
  the stack is part of the visited set, the finished nodes are closed under the relation,
  and none of them lies on a cycle.
\<close>

definition black :: "dfs_state \<Rightarrow> string set" where
  "black st = visited st - stack st"

definition dfs_inv :: "deps_dict \<Rightarrow> dfs_state \<Rightarrow> bool" where
  "dfs_inv d st \<longleftrightarrow>
     stack st \<subseteq> visited st \<and>
     (\<forall>b \<in> black st. \<forall>c. (b, c) \<in> dict_rel d \<longrightarrow> c \<in> black st) \<and>
     (\<forall>b \<in> black st. (b, b) \<notin> (dict_rel d)\<^sup>+)"

text \<open>
  What a call of \<open>dfs\<close> or of its loop guarantees: a call that returns true has met a
  cycle; a call that returns false leaves the stack as it found it, finishes the nodes
  \<open>new\<close> and keeps the invariant.
\<close>

definition dfs_post :: "deps_dict \<Rightarrow> dfs_state \<Rightarrow> string set \<Rightarrow> bool \<times> dfs_state \<Rightarrow> bool" where
  "dfs_post d st new r \<longleftrightarrow>
     (if fst r then \<not> acyclic (dict_rel d)
      else dfs_inv d (snd r) \<and> stack (snd r) = stack st \<and> black st \<union> new \<subseteq> black (snd r))"

text \<open>
  The invariant of the loop over the task ids: as long as nothing is reported the stack
  is empty between two calls; a report means that the relation has a cycle.
\<close>

definition detect_inv :: "deps_dict \<Rightarrow> dfs_state \<Rightarrow> bool" where
  "detect_inv d st \<longleftrightarrow>
     (if cycles st = [] then dfs_inv d st \<and> stack st = {} else \<not> acyclic (dict_rel d))"

text \<open>
  The order of the debate phases, \<open>initial\<close>, \<open>cross-review\<close>, \<open>synthesis\<close>, as a rank;
  and what every command other than \<^verbatim>\<open>reset\<close> keeps between the round sequence before
  and after it: no round is dropped, no round returns to \<open>initial\<close>, and a round that is
  not the last one is not touched.
\<close>

definition phase_rank :: "string \<Rightarrow> nat" where
  "phase_rank ph =
     (if ph = ''initial'' then 0 else if ph = ''cross-review'' then 1
      else if ph = ''synthesis'' then 2 else 3)"

definition rounds_progress :: "debate_round list \<Rightarrow> debate_round list \<Rightarrow> bool" where
  "rounds_progress rs rs' \<longleftrightarrow>
     length rs \<le> length rs' \<and>
     (\<forall>i < length rs.
        (phase (rs' ! i) = ''initial'' \<longrightarrow> phase (rs ! i) = ''initial'') \<and>
        (i + 1 < length rs \<longrightarrow> rs' ! i = rs ! i))"

section \<open>Example projects\<close>

definition ex_a :: task where "ex_a = make_task ''a'' [] [] []"
definition ex_b :: task where "ex_b = make_task ''b'' [] [] [''a'']"
definition ex_c :: task where "ex_c = make_task ''c'' [] [] [''zz'']"
definition ex_a_needs_b :: task where "ex_a_needs_b = make_task ''a'' [] [] [''b'']"
definition ex_a_needs_a :: task where "ex_a_needs_a = make_task ''a'' [] [] [''a'']"

text \<open>
  A chain of \<open>n\<close> tasks with the ids \<open>t\<close>, \<open>tt\<close>, \<open>ttt\<close>, ..., head first, each
  depending on the next id.
\<close>

definition chain_id :: "nat \<Rightarrow> string" where
  "chain_id k = replicate (Suc k) CHR ''t''"

definition ex_chain :: "nat \<Rightarrow> task list" where
  "ex_chain n = map (\<lambda>k. make_task (chain_id k) [] [] [chain_id (Suc k)]) [0..<n]"

text \<open>The linear project that \<^verbatim>\<open>init p --mode linear --pipeline x,y,z\<close> creates at time \<open>t0\<close>.\<close>

definition ex_pipeline :: project where
  "ex_pipeline = \<lparr>name = ''p'', mode = ''linear'', goal = [], created_at = ''t0'', workspace = [],
     stages = [make_stage ''x'' [] [], make_stage ''y'' [] [], make_stage ''z'' [] []],
     current_stage = 0, tasks = [], debaters = [], rounds = [], question = None\<rparr>"

text \<open>The debate project that \<^verbatim>\<open>init d --mode debate --goal q\<close> creates at time \<open>t0\<close>.\<close>

definition ex_debate :: project where
  "ex_debate = \<lparr>name = ''d'', mode = ''debate'', goal = ''q'', created_at = ''t0'', workspace = [],
     stages = [], current_stage = 0, tasks = [], debaters = [], rounds = [],
     question = Some ''q''\<rparr>"

definition ex_dag :: "task list \<Rightarrow> project" where
  "ex_dag ts = \<lparr>name = ''p'', mode = ''dag'', goal = [], created_at = [], workspace = [],
     stages = [], current_stage = 0, tasks = ts, debaters = [], rounds = [], question = None\<rparr>"

section \<open>Properties of compute_ready_tasks\<close>

lemma ready_loop_filter:
  "ready_loop dn ts =
     filter (\<lambda>t. status t = ''pending'' \<and> set (dependencies t) \<subseteq> dn) ts"
  by (induction ts) auto

lemma done_ids_iff:
  "d \<in> done_ids ts \<longleftrightarrow> (\<exists>u \<in> set ts. item_id u = d \<and> status u = ''done'')"
  by (auto simp: done_ids_def)

lemma ready_needs_existing:
  assumes "t \<in> set (ready_loop (done_ids ts) ts)" "d \<in> set (dependencies t)"
  shows "d \<in> item_id ` set ts"
proof -
  from assms have "d \<in> done_ids ts" by (auto simp: ready_loop_filter)
  then show ?thesis by (auto simp: done_ids_def)
qed

text \<open>
  Claim C1. \<open>compute_ready_tasks\<close> returns, in task order, exactly the tasks whose
  status is pending and each of whose dependency ids is the id of some task with status
  done; a task with a dependency on an id that no task carries is never returned.
\<close>

theorem C1_ready_tasks_exact:
  "compute_ready_tasks proj =
     filter (\<lambda>t. status t = ''pending'' \<and>
                 (\<forall>d \<in> set (dependencies t).
                    \<exists>u \<in> set (tasks proj). item_id u = d \<and> status u = ''done''))
            (tasks proj)
   \<and> (\<forall>t \<in> set (tasks proj).
         (\<exists>d \<in> set (dependencies t). d \<notin> item_id ` set (tasks proj))
           \<longrightarrow> t \<notin> set (compute_ready_tasks proj))"
proof
  show "compute_ready_tasks proj =
     filter (\<lambda>t. status t = ''pending'' \<and>
                 (\<forall>d \<in> set (dependencies t).
                    \<exists>u \<in> set (tasks proj). item_id u = d \<and> status u = ''done''))
            (tasks proj)"
    unfolding compute_ready_tasks_def ready_loop_filter
    by (rule filter_cong) (auto simp: done_ids_iff subset_iff)
  show "\<forall>t \<in> set (tasks proj).
         (\<exists>d \<in> set (dependencies t). d \<notin> item_id ` set (tasks proj))
           \<longrightarrow> t \<notin> set (compute_ready_tasks proj)"
    unfolding compute_ready_tasks_def using ready_needs_existing by blast
qed

theorem C1_witness:
  "compute_ready_tasks (ex_dag [ex_a\<lparr>status := ''done''\<rparr>, ex_b, ex_c]) = [ex_b]
   \<and> ex_c \<notin> set (compute_ready_tasks (ex_dag [ex_a\<lparr>status := ''done''\<rparr>, ex_b, ex_c]))"
  using C1_ready_tasks_exact [of "ex_dag [ex_a\<lparr>status := ''done''\<rparr>, ex_b, ex_c]"]
  by (simp add: ex_dag_def ex_a_def ex_b_def ex_c_def make_task_def)

section \<open>Correctness of the depth-first search\<close>

lemma dfs_Inr:
  assumes "dfs frames d node st = Inr r"
  obtains found st2 where "frames \<noteq> 0"
    and "dfs_deps (frames - 1) d node (dict_get d node)
           (st\<lparr>visited := insert node (visited st), stack := insert node (stack st)\<rparr>)
         = Inr (found, st2)"
    and "r = (if found then (True, st2) else (False, st2\<lparr>stack := stack st2 - {node}\<rparr>))"
  using assms
  by (auto simp: dfs.simps [of frames d node st] split: if_splits sum.splits prod.splits)

lemma dfs_deps_Cons_unvisited:
  assumes "dep \<notin> visited st"
  shows "dfs_deps frames d node (dep # rest) st =
     (case dfs frames d dep st of
        Inl e \<Rightarrow> Inl e
      | Inr (found, st') \<Rightarrow> if found then Inr (True, st') else dfs_deps frames d node rest st')"
  using assms by (simp add: dfs_deps.simps)

lemma dfs_deps_Cons_visited:
  assumes "dep \<in> visited st"
  shows "dfs_deps frames d node (dep # rest) st =
     (if dep \<in> stack st then Inr (True, st\<lparr>cycles := cycles st @ [node @ '' -> '' @ dep]\<rparr>)
      else dfs_deps frames d node rest st)"
  using assms by (simp add: dfs_deps.simps)

lemma dfs_cycles_extend:
  "\<forall>found st'. dfs frames d n st = Inr (found, st') \<longrightarrow>
     (\<exists>ys. cycles st' = cycles st @ ys \<and> (found \<longleftrightarrow> ys \<noteq> []))"
  "\<forall>found st'. dfs_deps frames d n deps st = Inr (found, st') \<longrightarrow>
     (\<exists>ys. cycles st' = cycles st @ ys \<and> (found \<longleftrightarrow> ys \<noteq> []))"
proof (induction frames d n st and frames d n deps st rule: dfs_dfs_deps.induct)
  case (1 frames d node st)
  show ?case
  proof (intro allI impI)
    fix found st' assume r: "dfs frames d node st = Inr (found, st')"
    from r obtain f2 st2 where nz: "frames \<noteq> 0"
      and l: "dfs_deps (frames - 1) d node (dict_get d node)
           (st\<lparr>visited := insert node (visited st), stack := insert node (stack st)\<rparr>)
         = Inr (f2, st2)"
      and eq: "(found, st') = (if f2 then (True, st2) else (False, st2\<lparr>stack := stack st2 - {node}\<rparr>))"
      by (rule dfs_Inr)
    from "1.IH" [OF nz] l obtain ys where "cycles st2 = cycles st @ ys" "f2 \<longleftrightarrow> ys \<noteq> []"
      by fastforce
    with eq show "\<exists>ys. cycles st' = cycles st @ ys \<and> (found \<longleftrightarrow> ys \<noteq> [])"
      by (cases f2) auto
  qed
next
  case (2 frames d node st)
  show ?case by (simp add: dfs_deps.simps)
next
  case (3 frames d node dep rest st)
  show ?case
  proof (intro allI impI)
    fix found st' assume r: "dfs_deps frames d node (dep # rest) st = Inr (found, st')"
    show "\<exists>ys. cycles st' = cycles st @ ys \<and> (found \<longleftrightarrow> ys \<noteq> [])"
    proof (cases "dep \<notin> visited st")
      case True
      note eq = dfs_deps_Cons_unvisited [OF True, of frames d node rest]
      from r eq obtain f1 st1 where r1: "dfs frames d dep st = Inr (f1, st1)"
        by (auto split: sum.splits)
      from "3.IH"(1) [OF True] r1 obtain ys where ys: "cycles st1 = cycles st @ ys" "f1 \<longleftrightarrow> ys \<noteq> []"
        by blast
      show ?thesis
      proof (cases f1)
        case True
        with r eq r1 ys show ?thesis by auto
      next
        case False
        with r eq r1 have "dfs_deps frames d node rest st1 = Inr (found, st')" by simp
        with "3.IH"(2) [OF \<open>dep \<notin> visited st\<close> r1 refl False]
        obtain zs where "cycles st' = cycles st1 @ zs" "found \<longleftrightarrow> zs \<noteq> []" by blast
        with ys False show ?thesis by simp
      qed
    next
      case False
      then have v: "dep \<in> visited st" by simp
      note eq = dfs_deps_Cons_visited [OF v, of frames d node rest]
      show ?thesis
      proof (cases "dep \<in> stack st")
        case True
        with r eq show ?thesis by auto
      next
        case nst: False
        with r eq have "dfs_deps frames d node rest st = Inr (found, st')" by simp
        with "3.IH"(3) [OF False nst] show ?thesis by blast
      qed
    qed
  qed
qed

lemma dfs_visited_mono:
  "\<forall>found st'. dfs frames d n st = Inr (found, st') \<longrightarrow> insert n (visited st) \<subseteq> visited st'"
  "\<forall>found st'. dfs_deps frames d n deps st = Inr (found, st') \<longrightarrow> visited st \<subseteq> visited st'"
proof (induction frames d n st and frames d n deps st rule: dfs_dfs_deps.induct)
  case (1 frames d node st)
  show ?case
  proof (intro allI impI)
    fix found st' assume r: "dfs frames d node st = Inr (found, st')"
    from r obtain f2 st2 where nz: "frames \<noteq> 0"
      and l: "dfs_deps (frames - 1) d node (dict_get d node)
           (st\<lparr>visited := insert node (visited st), stack := insert node (stack st)\<rparr>)
         = Inr (f2, st2)"
      and eq: "(found, st') = (if f2 then (True, st2) else (False, st2\<lparr>stack := stack st2 - {node}\<rparr>))"
      by (rule dfs_Inr)
    from "1.IH" [OF nz] l have "insert node (visited st) \<subseteq> visited st2" by fastforce
    with eq show "insert node (visited st) \<subseteq> visited st'" by (cases f2) auto
  qed
next
  case (2 frames d node st)
  show ?case by (simp add: dfs_deps.simps)
next
  case (3 frames d node dep rest st)
  show ?case
  proof (intro allI impI)
    fix found st' assume r: "dfs_deps frames d node (dep # rest) st = Inr (found, st')"
    show "visited st \<subseteq> visited st'"
    proof (cases "dep \<notin> visited st")
      case True
      note eq = dfs_deps_Cons_unvisited [OF True, of frames d node rest]
      from r eq obtain f1 st1 where r1: "dfs frames d dep st = Inr (f1, st1)"
        by (auto split: sum.splits)
      from "3.IH"(1) [OF True] r1 have m: "visited st \<subseteq> visited st1" by blast
      show ?thesis
      proof (cases f1)
        case True
        with r eq r1 m show ?thesis by auto
      next
        case False
        with r eq r1 have "dfs_deps frames d node rest st1 = Inr (found, st')" by simp
        with "3.IH"(2) [OF \<open>dep \<notin> visited st\<close> r1 refl False]
        have "visited st1 \<subseteq> visited st'" by blast
        with m show ?thesis by blast
      qed
    next
      case False
      then have v: "dep \<in> visited st" by simp
      note eq = dfs_deps_Cons_visited [OF v, of frames d node rest]
      show ?thesis
      proof (cases "dep \<in> stack st")
        case True
        with r eq show ?thesis by auto
      next
        case nst: False
        with r eq have "dfs_deps frames d node rest st = Inr (found, st')" by simp
        with "3.IH"(3) [OF False nst] show ?thesis by blast
      qed
    qed
  qed
qed

lemma black_closed:
  assumes "dfs_inv d st" "(b, c) \<in> (dict_rel d)\<^sup>*" "b \<in> black st"
  shows "c \<in> black st"
  using assms(2,3)
proof (induction rule: rtrancl_induct)
  case base
  then show ?case by simp
next
  case (step y z)
  with assms(1) show ?case by (auto simp: dfs_inv_def)
qed

lemma dfs_inv_enter:
  assumes "dfs_inv d st" "node \<notin> visited st"
  shows "dfs_inv d (st\<lparr>visited := insert node (visited st), stack := insert node (stack st)\<rparr>)"
    and "black (st\<lparr>visited := insert node (visited st), stack := insert node (stack st)\<rparr>) = black st"
proof -
  show b: "black (st\<lparr>visited := insert node (visited st), stack := insert node (stack st)\<rparr>) = black st"
    using assms(2) by (auto simp: black_def)
  show "dfs_inv d (st\<lparr>visited := insert node (visited st), stack := insert node (stack st)\<rparr>)"
    unfolding dfs_inv_def b using assms(1) by (auto simp: dfs_inv_def)
qed

lemma dfs_inv_leave:
  assumes inv: "dfs_inv d st" and on: "node \<in> stack st"
    and succ: "set (dict_get d node) \<subseteq> black st"
  shows "dfs_inv d (st\<lparr>stack := stack st - {node}\<rparr>)"
    and "black (st\<lparr>stack := stack st - {node}\<rparr>) = insert node (black st)"
proof -
  from inv have sub: "stack st \<subseteq> visited st" by (simp add: dfs_inv_def)
  show b: "black (st\<lparr>stack := stack st - {node}\<rparr>) = insert node (black st)"
    using on sub by (auto simp: black_def)
  have nb: "node \<notin> black st" using on by (simp add: black_def)
  have closed: "\<forall>b \<in> insert node (black st). \<forall>c. (b, c) \<in> dict_rel d \<longrightarrow> c \<in> insert node (black st)"
    using inv succ by (auto simp: dfs_inv_def dict_rel_def)
  have "(node, node) \<notin> (dict_rel d)\<^sup>+"
  proof
    assume "(node, node) \<in> (dict_rel d)\<^sup>+"
    then obtain s where s: "(node, s) \<in> dict_rel d" "(s, node) \<in> (dict_rel d)\<^sup>*"
      by (auto dest: tranclD)
    from s(1) succ have "s \<in> black st" by (auto simp: dict_rel_def)
    with inv s(2) have "node \<in> black st" by (rule black_closed)
    with nb show False by simp
  qed
  with inv have acyc: "\<forall>b \<in> insert node (black st). (b, b) \<notin> (dict_rel d)\<^sup>+"
    by (auto simp: dfs_inv_def)
  show "dfs_inv d (st\<lparr>stack := stack st - {node}\<rparr>)"
    unfolding dfs_inv_def b using sub closed acyc by auto
qed

lemma dfs_correct:
  "dfs_inv d st \<Longrightarrow> n \<notin> visited st \<Longrightarrow> \<forall>s \<in> stack st. (s, n) \<in> (dict_rel d)\<^sup>*
     \<Longrightarrow> \<forall>r. dfs frames d n st = Inr r \<longrightarrow> dfs_post d st {n} r"
  "dfs_inv d st \<Longrightarrow> n \<in> stack st \<Longrightarrow> \<forall>s \<in> stack st. (s, n) \<in> (dict_rel d)\<^sup>*
     \<Longrightarrow> set deps \<subseteq> set (dict_get d n)
     \<Longrightarrow> \<forall>r. dfs_deps frames d n deps st = Inr r \<longrightarrow> dfs_post d st (set deps) r"
proof (induction frames d n st and frames d n deps st rule: dfs_dfs_deps.induct)
  case (1 frames d node st)
  let ?st1 = "st\<lparr>visited := insert node (visited st), stack := insert node (stack st)\<rparr>"
  show ?case
  proof (intro allI impI)
    fix r assume ret: "dfs frames d node st = Inr r"
    from ret obtain found st2 where nz: "frames \<noteq> 0"
      and l: "dfs_deps (frames - 1) d node (dict_get d node) ?st1 = Inr (found, st2)"
      and r: "r = (if found then (True, st2) else (False, st2\<lparr>stack := stack st2 - {node}\<rparr>))"
      by (rule dfs_Inr)
    have inv1: "dfs_inv d ?st1" and b1: "black ?st1 = black st"
      using dfs_inv_enter [OF "1.prems"(1,2)] by simp_all
    have path1: "\<forall>s \<in> stack ?st1. (s, node) \<in> (dict_rel d)\<^sup>*"
      using "1.prems"(3) by simp
    have post: "dfs_post d ?st1 (set (dict_get d node)) (found, st2)"
      using "1.IH" [OF nz inv1 _ path1] l by simp
    show "dfs_post d st {node} r"
    proof (cases found)
      case True
      with post r show ?thesis by (simp add: dfs_post_def)
    next
      case False
      with post have inv2: "dfs_inv d st2" and s2: "stack st2 = insert node (stack st)"
        and b2: "black st \<subseteq> black st2" and succ: "set (dict_get d node) \<subseteq> black st2"
        by (simp_all add: dfs_post_def b1)
      from s2 have on: "node \<in> stack st2" by simp
      note leave = dfs_inv_leave [OF inv2 on succ]
      from "1.prems"(1,2) have "node \<notin> stack st" by (auto simp: dfs_inv_def)
      with s2 have "stack st2 - {node} = stack st" by auto
      with leave b2 False r show ?thesis
        by (auto simp add: dfs_post_def)
    qed
  qed
next
  case (2 frames d node st)
  then show ?case by (simp add: dfs_deps.simps dfs_post_def)
next
  case (3 frames d node dep rest st)
  from "3.prems"(4) have edge: "(node, dep) \<in> dict_rel d" and rest: "set rest \<subseteq> set (dict_get d node)"
    by (simp_all add: dict_rel_def)
  show ?case
  proof (intro allI impI)
    fix r assume ret: "dfs_deps frames d node (dep # rest) st = Inr r"
    show "dfs_post d st (set (dep # rest)) r"
    proof (cases "dep \<notin> visited st")
      case True
      note eq = dfs_deps_Cons_unvisited [OF True, of frames d node rest]
      from ret eq obtain found st' where r1: "dfs frames d dep st = Inr (found, st')"
        by (auto split: sum.splits)
      have path: "\<forall>s \<in> stack st. (s, dep) \<in> (dict_rel d)\<^sup>*"
        using "3.prems"(3) edge by (auto intro: rtrancl_into_rtrancl)
      have post: "dfs_post d st {dep} (found, st')"
        using "3.IH"(1) [OF True "3.prems"(1) True path] r1 by simp
      show ?thesis
      proof (cases found)
        case True
        with post ret eq r1 show ?thesis by (auto simp add: dfs_post_def)
      next
        case False
        with post have inv': "dfs_inv d st'" and s': "stack st' = stack st"
          and b': "black st \<subseteq> black st'" "dep \<in> black st'"
          by (simp_all add: dfs_post_def)
        from False ret eq r1 have ret': "dfs_deps frames d node rest st' = Inr r" by simp
        have "dfs_post d st' (set rest) r"
          using "3.IH"(2) [OF True r1 refl False inv'] "3.prems"(2,3) rest ret'
          by (simp add: s')
        with b' s' show ?thesis
          unfolding dfs_post_def by (simp split: if_splits) blast
      qed
    next
      case False
      then have vis: "dep \<in> visited st" by simp
      note eq = dfs_deps_Cons_visited [OF vis, of frames d node rest]
      show ?thesis
      proof (cases "dep \<in> stack st")
        case True
        with "3.prems"(3) have "(dep, node) \<in> (dict_rel d)\<^sup>*" by simp
        then have "(dep, dep) \<in> (dict_rel d)\<^sup>+" using edge by (rule rtrancl_into_trancl1)
        then have "\<not> acyclic (dict_rel d)" by (auto simp: acyclic_def)
        with True ret eq show ?thesis by (auto simp add: dfs_post_def)
      next
        case nst: False
        with vis have db: "dep \<in> black st" by (simp add: black_def)
        from nst ret eq have ret': "dfs_deps frames d node rest st = Inr r" by simp
        have "dfs_post d st (set rest) r"
          using "3.IH"(3) [OF False nst "3.prems"(1,2,3) rest] ret' by blast
        with db show ?thesis by (auto simp: dfs_post_def)
      qed
    qed
  qed
qed

lemma dict_get_not_key: "node \<notin> fst ` set d \<Longrightarrow> dict_get d node = []"
  by (simp add: dict_get_def map_of_eq_None_iff [THEN iffD2])

lemma dfs_returns:
  "n \<notin> visited st \<Longrightarrow> 1 \<le> frames
     \<Longrightarrow> (n \<in> fst ` set d \<longrightarrow> card (fst ` set d - visited st) + 1 \<le> frames)
     \<Longrightarrow> \<exists>r. dfs frames d n st = Inr r"
  "card (fst ` set d - visited st) + 1 \<le> frames
     \<Longrightarrow> \<exists>r. dfs_deps frames d n deps st = Inr r"
proof (induction frames d n st and frames d n deps st rule: dfs_dfs_deps.induct)
  case (1 frames d node st)
  let ?st1 = "st\<lparr>visited := insert node (visited st), stack := insert node (stack st)\<rparr>"
  from "1.prems"(2) have nz: "frames \<noteq> 0" by simp
  have "\<exists>r. dfs_deps (frames - 1) d node (dict_get d node) ?st1 = Inr r"
  proof (cases "node \<in> fst ` set d")
    case False
    then have "dfs_deps (frames - 1) d node (dict_get d node) ?st1 = Inr (False, ?st1)"
      by (simp add: dict_get_not_key dfs_deps.simps)
    then show ?thesis by blast
  next
    case True
    with "1.prems"(1) have mem: "node \<in> fst ` set d - visited st" by simp
    have fin: "finite (fst ` set d - visited st)" by simp
    have "fst ` set d - visited ?st1 = (fst ` set d - visited st) - {node}" by auto
    then have "card (fst ` set d - visited ?st1) = card (fst ` set d - visited st) - 1"
      using mem by (simp add: card_Diff_singleton)
    moreover from fin mem have "0 < card (fst ` set d - visited st)"
      by (auto simp: card_gt_0_iff)
    ultimately have "card (fst ` set d - visited ?st1) + 1 = card (fst ` set d - visited st)"
      by simp
    with "1.prems"(3) True have "card (fst ` set d - visited ?st1) + 1 \<le> frames - 1" by simp
    then show ?thesis by (rule "1.IH" [OF nz])
  qed
  then obtain r where "dfs_deps (frames - 1) d node (dict_get d node) ?st1 = Inr r" ..
  with nz show ?case
    by (cases r) (auto simp add: dfs.simps [of frames d node st])
next
  case (2 frames d node st)
  have "dfs_deps frames d node [] st = Inr (False, st)" by (simp add: dfs_deps.simps)
  then show ?case by blast
next
  case (3 frames d node dep rest st)
  show ?case
  proof (cases "dep \<notin> visited st")
    case True
    note eq = dfs_deps_Cons_unvisited [OF True, of frames d node rest]
    from "3.prems" have "1 \<le> frames" by simp
    from "3.IH"(1) [OF True True this] "3.prems"
    obtain r1 where r1: "dfs frames d dep st = Inr r1" by blast
    obtain found st' where r1': "r1 = (found, st')" by (cases r1)
    show ?thesis
    proof (cases found)
      case True
      with eq r1 r1' show ?thesis by auto
    next
      case False
      from dfs_visited_mono(1) [of frames d dep st] r1 r1'
      have "visited st \<subseteq> visited st'" by blast
      then have "fst ` set d - visited st' \<subseteq> fst ` set d - visited st" by blast
      then have "card (fst ` set d - visited st') \<le> card (fst ` set d - visited st)"
        by (simp add: card_mono)
      with "3.prems" have enough: "card (fst ` set d - visited st') + 1 \<le> frames" by simp
      from r1 r1' have r1'': "dfs frames d dep st = Inr (found, st')" by simp
      from "3.IH"(2) [OF True r1'' refl False enough]
      obtain r where "dfs_deps frames d node rest st' = Inr r" by auto
      with False eq r1 r1' show ?thesis by auto
    qed
  next
    case False
    then have vis: "dep \<in> visited st" by simp
    note eq = dfs_deps_Cons_visited [OF vis, of frames d node rest]
    show ?thesis
    proof (cases "dep \<in> stack st")
      case True
      with eq show ?thesis by auto
    next
      case nst: False
      from "3.IH"(3) [OF False nst "3.prems"] eq nst show ?thesis by auto
    qed
  qed
qed

subsection \<open>The loop over the task ids\<close>

lemma detect_step:
  assumes inv: "detect_inv d st" and new: "tid \<notin> visited st"
    and ret: "dfs frames d tid st = Inr (found, st')"
  shows "detect_inv d st'"
proof -
  from dfs_cycles_extend(1) [of frames d tid st] ret
  obtain ys where ys: "cycles st' = cycles st @ ys" "found \<longleftrightarrow> ys \<noteq> []" by blast
  show ?thesis
  proof (cases "cycles st = []")
    case False
    with inv ys show ?thesis by (simp add: detect_inv_def)
  next
    case True
    with inv have i: "dfs_inv d st" and emp: "stack st = {}"
      by (simp_all add: detect_inv_def)
    have post: "dfs_post d st {tid} (found, st')"
      using dfs_correct(1) [OF i new, of frames] emp ret by simp
    show ?thesis
    proof (cases found)
      case True
      with post ys show ?thesis by (simp add: detect_inv_def dfs_post_def)
    next
      case False
      with post have "dfs_inv d st'" "stack st' = {}"
        by (simp_all add: dfs_post_def emp)
      moreover from False ys True have "cycles st' = []" by simp
      ultimately show ?thesis by (simp add: detect_inv_def)
    qed
  qed
qed

lemma detect_loop_Cons:
  assumes "detect_loop frames d (tid # tids) st = Inr st'"
  obtains "tid \<in> visited st" and "detect_loop frames d tids st = Inr st'"
  | found st1 where "tid \<notin> visited st" and "dfs frames d tid st = Inr (found, st1)"
      and "detect_loop frames d tids st1 = Inr st'"
  using assms by (auto split: if_splits sum.splits)

lemma detect_loop_inv:
  "detect_inv d st \<Longrightarrow> detect_loop frames d tids st = Inr st' \<Longrightarrow>
     detect_inv d st' \<and> set tids \<union> visited st \<subseteq> visited st'"
proof (induction tids arbitrary: st)
  case Nil
  then show ?case by simp
next
  case (Cons tid tids)
  from Cons.prems(2) show ?case
  proof (cases rule: detect_loop_Cons)
    case 1
    with Cons.IH [OF Cons.prems(1) 1(2)] show ?thesis by auto
  next
    case (2 found st1)
    from Cons.prems(1) 2(1,2) have "detect_inv d st1" by (rule detect_step)
    from Cons.IH [OF this 2(3)]
    have a: "detect_inv d st'" and b: "set tids \<union> visited st1 \<subseteq> visited st'" by simp_all
    from dfs_visited_mono(1) [of frames d tid st] 2(2)
    have "insert tid (visited st) \<subseteq> visited st1" by blast
    with a b show ?thesis by auto
  qed
qed

lemma detect_loop_correct:
  assumes "detect_loop frames d (map fst d) \<lparr>visited = {}, stack = {}, cycles = []\<rparr> = Inr st'"
  shows "cycles st' = [] \<longleftrightarrow> acyclic (dict_rel d)"
proof -
  let ?init = "\<lparr>visited = {}, stack = {}, cycles = []\<rparr>"
  have init: "detect_inv d ?init"
    by (simp add: detect_inv_def dfs_inv_def black_def)
  from detect_loop_inv [OF init assms]
  have fin: "detect_inv d st'" and keys: "fst ` set d \<subseteq> visited st'" by simp_all
  show ?thesis
  proof
    assume nil: "cycles st' = []"
    with fin have inv: "dfs_inv d st'" and emp: "stack st' = {}"
      by (simp_all add: detect_inv_def)
    show "acyclic (dict_rel d)"
      unfolding acyclic_def
    proof (intro allI notI)
      fix x assume "(x, x) \<in> (dict_rel d)\<^sup>+"
      then obtain y where "(x, y) \<in> dict_rel d" by (auto dest: tranclD)
      then have "dict_get d x \<noteq> []" by (auto simp: dict_rel_def)
      then have "map_of d x \<noteq> None" by (cases "map_of d x") (simp_all add: dict_get_def)
      then have "x \<in> fst ` set d" by (simp add: map_of_eq_None_iff)
      with keys emp have "x \<in> black st'" by (auto simp: black_def)
      with inv have "(x, x) \<notin> (dict_rel d)\<^sup>+" by (simp add: dfs_inv_def)
      with \<open>(x, x) \<in> (dict_rel d)\<^sup>+\<close> show False by simp
    qed
  next
    assume "acyclic (dict_rel d)"
    with fin show "cycles st' = []" by (auto simp: detect_inv_def split: if_splits)
  qed
qed

lemma detect_loop_returns:
  assumes "card (fst ` set d) < frames"
  shows "\<exists>st'. detect_loop frames d tids st = Inr st'"
proof (induction tids arbitrary: st)
  case Nil
  show ?case by simp
next
  case (Cons tid tids)
  show ?case
  proof (cases "tid \<in> visited st")
    case True
    with Cons.IH [of st] show ?thesis by simp
  next
    case False
    have "card (fst ` set d - visited st) \<le> card (fst ` set d)"
      by (simp add: card_mono)
    with assms have "card (fst ` set d - visited st) + 1 \<le> frames" by simp
    with dfs_returns(1) [OF False, of frames d] assms
    obtain r where r: "dfs frames d tid st = Inr r" by auto
    obtain found st1 where "r = (found, st1)" by (cases r)
    with r False Cons.IH [of st1] show ?thesis by simp
  qed
qed

subsection \<open>The dictionary and the task sequence\<close>

lemma update_fresh: "k \<notin> fst ` set al \<Longrightarrow> AList.update k v al = al @ [(k, v)]"
  by (induction al) auto

lemma tasks_dict_snoc:
  "tasks_dict (ts @ [t]) = AList.update (item_id t) (dependencies t) (tasks_dict ts)"
  by (simp add: tasks_dict_def)

lemma tasks_dict_keys: "fst ` set (tasks_dict ts) = item_id ` set ts"
proof (induction ts rule: rev_induct)
  case Nil
  show ?case by (simp add: tasks_dict_def)
next
  case (snoc t ts)
  then show ?case by (simp add: tasks_dict_snoc dom_update)
qed

lemma tasks_dict_distinct:
  "distinct (map item_id ts) \<Longrightarrow> tasks_dict ts = map (\<lambda>t. (item_id t, dependencies t)) ts"
proof (induction ts rule: rev_induct)
  case Nil
  show ?case by (simp add: tasks_dict_def)
next
  case (snoc t ts)
  then have eq: "tasks_dict ts = map (\<lambda>t. (item_id t, dependencies t)) ts"
    and fresh: "item_id t \<notin> item_id ` set ts" by simp_all
  from fresh have "item_id t \<notin> fst ` set (tasks_dict ts)" by (simp add: tasks_dict_keys)
  then show ?case by (simp add: tasks_dict_snoc update_fresh eq)
qed

lemma dep_rel_iff:
  "(n, x) \<in> dep_rel ts \<longleftrightarrow> (\<exists>t \<in> set ts. item_id t = n \<and> x \<in> set (dependencies t))"
  by (auto simp: dep_rel_def dep_edges_def)

lemma dict_get_task:
  assumes "distinct (map item_id ts)" and "t \<in> set ts"
  shows "dict_get (tasks_dict ts) (item_id t) = dependencies t"
proof -
  have "distinct (map fst (map (\<lambda>t. (item_id t, dependencies t)) ts))"
    using assms(1) by (simp add: comp_def)
  moreover have "(item_id t, dependencies t) \<in> set (map (\<lambda>t. (item_id t, dependencies t)) ts)"
    using assms(2) by auto
  ultimately have "map_of (map (\<lambda>t. (item_id t, dependencies t)) ts) (item_id t) = Some (dependencies t)"
    by (rule map_of_is_SomeI)
  then show ?thesis by (simp add: dict_get_def tasks_dict_distinct [OF assms(1)])
qed

lemma dict_rel_tasks_dict:
  assumes "distinct (map item_id ts)"
  shows "dict_rel (tasks_dict ts) = dep_rel ts"
proof (rule set_eqI, clarify)
  fix n x
  show "(n, x) \<in> dict_rel (tasks_dict ts) \<longleftrightarrow> (n, x) \<in> dep_rel ts"
  proof
    assume "(n, x) \<in> dict_rel (tasks_dict ts)"
    then have x: "x \<in> set (dict_get (tasks_dict ts) n)" by (simp add: dict_rel_def)
    have "n \<in> fst ` set (tasks_dict ts)"
    proof (rule ccontr)
      assume "n \<notin> fst ` set (tasks_dict ts)"
      then have "dict_get (tasks_dict ts) n = []" by (rule dict_get_not_key)
      with x show False by simp
    qed
    then obtain t where t: "t \<in> set ts" "item_id t = n" by (auto simp: tasks_dict_keys)
    with x dict_get_task [OF assms t(1)] show "(n, x) \<in> dep_rel ts"
      unfolding dep_rel_iff by auto
  next
    assume "(n, x) \<in> dep_rel ts"
    then obtain t where t: "t \<in> set ts" "item_id t = n" "x \<in> set (dependencies t)"
      unfolding dep_rel_iff by auto
    with dict_get_task [OF assms t(1)] show "(n, x) \<in> dict_rel (tasks_dict ts)"
      by (simp add: dict_rel_def)
  qed
qed

lemma detect_cycles_sound:
  assumes "distinct (map item_id (tasks proj))" and "detect_cycles frames proj = Inr cs"
  shows "cs = [] \<longleftrightarrow> acyclic (dep_rel (tasks proj))"
proof -
  let ?d = "tasks_dict (tasks proj)"
  from assms(2) obtain st' where
    l: "detect_loop frames ?d (map fst ?d) \<lparr>visited = {}, stack = {}, cycles = []\<rparr> = Inr st'"
    and cs: "cs = cycles st'"
    by (auto simp: detect_cycles_def Let_def split: sum.splits)
  from detect_loop_correct [OF l] cs show ?thesis
    by (simp add: dict_rel_tasks_dict [OF assms(1)])
qed

lemma detect_cycles_returns:
  assumes "length (tasks proj) < frames"
  shows "\<exists>cs. detect_cycles frames proj = Inr cs"
proof -
  let ?d = "tasks_dict (tasks proj)"
  have "card (fst ` set ?d) \<le> length (tasks proj)"
    unfolding tasks_dict_keys by (metis card_image_le card_length le_trans List.finite_set)
  with assms have "card (fst ` set ?d) < frames" by simp
  from detect_loop_returns [OF this, of "map fst ?d" "\<lparr>visited = {}, stack = {}, cycles = []\<rparr>"]
  obtain st' where
    "detect_loop frames ?d (map fst ?d) \<lparr>visited = {}, stack = {}, cycles = []\<rparr> = Inr st'" ..
  then show ?thesis by (simp add: detect_cycles_def Let_def)
qed

section \<open>Cycle detection and the add command\<close>

text \<open>Facts for evaluating the functions on the example projects.\<close>

lemmas ex_defs = ex_dag_def ex_a_def ex_b_def ex_c_def ex_a_needs_b_def make_task_def
lemmas dfs_eval = detect_cycles_def tasks_dict_def dict_get_def dfs.simps dfs_deps.simps

lemma cyclic_two: "(x, y) \<in> r \<Longrightarrow> (y, x) \<in> r \<Longrightarrow> \<not> acyclic r"
  unfolding acyclic_def by (meson trancl.simps)

text \<open>
  \<open>cmd_add\<close> never looks at the ids that are already there, so three \<^verbatim>\<open>add\<close> commands on
  an empty project give a task sequence in which the id \<open>a\<close> occurs twice.
\<close>

lemma duplicate_ids_reachable:
  "run_commands 1000 (ex_dag [])
     [(''t1'', Add ''a'' None None [''b'']), (''t2'', Add ''a'' None None []),
      (''t3'', Add ''b'' None None [''a''])]
   = ex_dag [ex_a_needs_b, ex_a, ex_b]"
  by (simp add: ex_defs dfs_eval cmd_add_def)

subsection \<open>Deep chains\<close>

text \<open>
  On a chain whose head is the first task, \<open>dfs\<close> nests once for every task of the
  chain and once more for the id after the last one, so it raises as soon as the chain is
  at least as long as the number of frames; the loop over the ids starts at the head.
\<close>

lemma chain_id_eq [simp]: "chain_id j = chain_id k \<longleftrightarrow> j = k"
proof
  assume "chain_id j = chain_id k"
  then have "length (chain_id j) = length (chain_id k)" by simp
  then show "j = k" by (simp add: chain_id_def)
qed simp

lemma ex_chain_ids: "map item_id (ex_chain n) = map chain_id [0..<n]"
  by (simp add: ex_chain_def make_task_def comp_def)

lemma ex_chain_distinct: "distinct (map item_id (ex_chain n))"
  unfolding ex_chain_ids by (simp add: distinct_map inj_on_def)

lemma ex_chain_snoc_distinct:
  "distinct (map item_id (ex_chain n @ [make_task (chain_id n) ag ds deps]))"
  using ex_chain_distinct [of n] by (auto simp: ex_chain_ids make_task_def)

lemma ex_chain_fresh: "chain_id n \<notin> item_id ` set (ex_chain n)"
proof -
  have "item_id ` set (ex_chain n) = set (map item_id (ex_chain n))" by simp
  also have "\<dots> = chain_id ` {0..<n}" unfolding ex_chain_ids by simp
  finally show ?thesis by auto
qed

lemma ex_chain_dict_get:
  assumes "distinct (map item_id (ex_chain n @ extra))" and "j < n"
  shows "dict_get (tasks_dict (ex_chain n @ extra)) (chain_id j) = [chain_id (Suc j)]"
proof -
  let ?t = "make_task (chain_id j) [] [] [chain_id (Suc j)]"
  from assms(2) have "?t \<in> set (ex_chain n @ extra)" by (auto simp: ex_chain_def)
  from dict_get_task [OF assms(1) this] show ?thesis by (simp add: make_task_def)
qed

lemma deep_chain_raises:
  assumes "\<forall>j<n. dict_get d (chain_id j) = [chain_id (Suc j)]"
  shows "k + frames \<le> n \<Longrightarrow> \<forall>j>k. chain_id j \<notin> visited st
           \<Longrightarrow> dfs frames d (chain_id k) st = Inl RecursionError"
proof (induction frames arbitrary: k st)
  case 0
  show ?case by (simp add: dfs.simps)
next
  case (Suc f)
  let ?st1 = "st\<lparr>visited := insert (chain_id k) (visited st),
                  stack := insert (chain_id k) (stack st)\<rparr>"
  from Suc.prems(1) have k: "k < n" by simp
  with assms have deps: "dict_get d (chain_id k) = [chain_id (Suc k)]" by simp
  from Suc.prems(2) have new: "chain_id (Suc k) \<notin> visited ?st1" by simp
  have "dfs f d (chain_id (Suc k)) ?st1 = Inl RecursionError"
  proof (rule Suc.IH)
    from Suc.prems(1) show "Suc k + f \<le> n" by simp
    from Suc.prems(2) show "\<forall>j>Suc k. chain_id j \<notin> visited ?st1" by simp
  qed
  with new have "dfs_deps f d (chain_id k) [chain_id (Suc k)] ?st1 = Inl RecursionError"
    by (simp add: dfs_deps.simps)
  with deps show ?case by (simp add: dfs.simps [of "Suc f"])
qed

lemma ex_chain_raises:
  assumes "0 < n" and "frames \<le> n" and "distinct (map item_id (ex_chain n @ extra))"
  shows "detect_cycles frames (ex_dag (ex_chain n @ extra)) = Inl RecursionError"
proof -
  let ?ts = "ex_chain n @ extra"
  let ?d = "tasks_dict ?ts"
  let ?init = "\<lparr>visited = {}, stack = {}, cycles = []\<rparr>"
  have get: "\<forall>j<n. dict_get ?d (chain_id j) = [chain_id (Suc j)]"
    using ex_chain_dict_get [OF assms(3)] by blast
  from assms(1) obtain m where n: "n = Suc m" by (cases n) auto
  have "map fst ?d = map item_id ?ts"
    by (simp add: tasks_dict_distinct [OF assms(3)] comp_def)
  also have "\<dots> = chain_id 0 # map chain_id [1..<n] @ map item_id extra"
    using assms(1) by (simp add: ex_chain_ids upt_conv_Cons)
  finally have keys: "map fst ?d = chain_id 0 # map chain_id [1..<n] @ map item_id extra" .
  have "dfs frames ?d (chain_id 0) ?init = Inl RecursionError"
    using deep_chain_raises [OF get, of 0 frames ?init] assms(2) by simp
  then have "detect_loop frames ?d (map fst ?d) ?init = Inl RecursionError"
    unfolding keys by simp
  then show ?thesis by (simp add: detect_cycles_def ex_dag_def)
qed

lemma ex_chain_acyclic: "acyclic (dep_rel (ex_chain n))"
proof -
  have "acyclic ((dep_rel (ex_chain n))\<inverse>)"
  proof (rule acyclicI_order [where f = length])
    fix a b assume "(a, b) \<in> (dep_rel (ex_chain n))\<inverse>"
    then have "(b, a) \<in> dep_rel (ex_chain n)" by simp
    then obtain k where "b = chain_id k" "a = chain_id (Suc k)"
      by (auto simp: dep_rel_iff ex_chain_def make_task_def)
    then show "length b < length a" by (simp add: chain_id_def)
  qed
  then show ?thesis by (simp add: acyclic_converse)
qed

lemma ex_chain_path:
  "k \<le> n \<Longrightarrow> (chain_id 0, chain_id k) \<in> (dep_rel (ex_chain n @ extra))\<^sup>*"
proof (induction k)
  case 0
  show ?case by simp
next
  case (Suc k)
  then have "(chain_id 0, chain_id k) \<in> (dep_rel (ex_chain n @ extra))\<^sup>*" by simp
  moreover from Suc.prems have "(chain_id k, chain_id (Suc k)) \<in> dep_rel (ex_chain n @ extra)"
    unfolding dep_rel_iff by (auto simp: ex_chain_def make_task_def intro!: bexI [of _ "make_task (chain_id k) [] [] [chain_id (Suc k)]"])
  ultimately show ?case by (rule rtrancl_into_rtrancl)
qed

lemma ex_chain_closed_cyclic:
  "\<not> acyclic (dep_rel (ex_chain n @ [make_task (chain_id n) ag ds [chain_id 0]]))"
proof -
  let ?r = "dep_rel (ex_chain n @ [make_task (chain_id n) ag ds [chain_id 0]])"
  have "(chain_id 0, chain_id n) \<in> ?r\<^sup>*" by (rule ex_chain_path) simp
  moreover have "(chain_id n, chain_id 0) \<in> ?r"
    unfolding dep_rel_iff by (simp add: make_task_def)
  ultimately have "(chain_id 0, chain_id 0) \<in> ?r\<^sup>+" by (rule rtrancl_into_trancl1)
  then show ?thesis by (auto simp: acyclic_def)
qed

subsection \<open>Claims C2 and C3\<close>

text \<open>
  Claim C2, as stated, fails in two ways. With an id that occurs twice: in the project
  reached above the first task \<open>a\<close> depends on \<open>b\<close> and \<open>b\<close> depends on \<open>a\<close>, but
  the dictionary of \<open>detect_cycles\<close> keeps for \<open>a\<close> only the dependencies of the second
  task \<open>a\<close>, which has none, and the empty sequence is returned for a cyclic relation.
  And with a long chain: for 1000 tasks with distinct ids, each depending on the next, the
  relation is acyclic, but under the default recursion limit of 1000 (which leaves at most
  1000 frames to \<open>dfs\<close>) \<open>detect_cycles\<close> raises \<^verbatim>\<open>RecursionError\<close> and returns nothing.
\<close>

theorem C2_counterexample:
  "(detect_cycles 1000 (ex_dag [ex_a_needs_b, ex_a, ex_b]) = Inr []
     \<and> \<not> acyclic (dep_rel (tasks (ex_dag [ex_a_needs_b, ex_a, ex_b]))))
   \<and> (distinct (map item_id (tasks (ex_dag (ex_chain 1000))))
     \<and> acyclic (dep_rel (tasks (ex_dag (ex_chain 1000))))
     \<and> detect_cycles 1000 (ex_dag (ex_chain 1000)) = Inl RecursionError)"
proof (intro conjI)
  show "detect_cycles 1000 (ex_dag [ex_a_needs_b, ex_a, ex_b]) = Inr []"
    by (simp add: ex_defs dfs_eval)
  show "\<not> acyclic (dep_rel (tasks (ex_dag [ex_a_needs_b, ex_a, ex_b])))"
    by (rule cyclic_two [of "''a''" "''b''"]) (simp_all add: dep_rel_def dep_edges_def ex_defs)
  show "distinct (map item_id (tasks (ex_dag (ex_chain 1000))))"
    by (simp add: ex_dag_def ex_chain_distinct)
  show "acyclic (dep_rel (tasks (ex_dag (ex_chain 1000))))"
    by (simp add: ex_dag_def ex_chain_acyclic)
  have "distinct (map item_id (ex_chain 1000 @ []))"
    using ex_chain_distinct [of 1000] by simp
  from ex_chain_raises [OF _ _ this, of 1000]
  show "detect_cycles 1000 (ex_dag (ex_chain 1000)) = Inl RecursionError" by simp
qed

text \<open>
  Claim C2, amended: for every project whose task ids are distinct and whose number of
  tasks is smaller than the number of frames that the interpreter leaves to \<open>dfs\<close>,
  \<open>detect_cycles\<close> returns a sequence, and the sequence is empty if and only if the
  dependency relation (an edge from each task id to each of its dependency ids) is
  acyclic. On a longer project with distinct ids it either raises \<^verbatim>\<open>RecursionError\<close> or
  returns a sequence that is empty if and only if the relation is acyclic.
\<close>

theorem C2_detect_cycles_iff_acyclic:
  assumes "distinct (map item_id (tasks proj))"
  shows "(length (tasks proj) < frames \<longrightarrow>
            (\<exists>cs. detect_cycles frames proj = Inr cs
                  \<and> (cs = [] \<longleftrightarrow> acyclic (dep_rel (tasks proj)))))
         \<and> (detect_cycles frames proj = Inl RecursionError
            \<or> (\<exists>cs. detect_cycles frames proj = Inr cs
                  \<and> (cs = [] \<longleftrightarrow> acyclic (dep_rel (tasks proj)))))"
proof
  show "length (tasks proj) < frames \<longrightarrow>
            (\<exists>cs. detect_cycles frames proj = Inr cs
                  \<and> (cs = [] \<longleftrightarrow> acyclic (dep_rel (tasks proj))))"
  proof
    assume "length (tasks proj) < frames"
    then obtain cs where "detect_cycles frames proj = Inr cs"
      using detect_cycles_returns by blast
    with detect_cycles_sound [OF assms this] show
      "\<exists>cs. detect_cycles frames proj = Inr cs \<and> (cs = [] \<longleftrightarrow> acyclic (dep_rel (tasks proj)))"
      by blast
  qed
  show "detect_cycles frames proj = Inl RecursionError
            \<or> (\<exists>cs. detect_cycles frames proj = Inr cs
                  \<and> (cs = [] \<longleftrightarrow> acyclic (dep_rel (tasks proj))))"
  proof (cases "detect_cycles frames proj")
    case (Inl e)
    then show ?thesis by (cases e) simp
  next
    case (Inr cs)
    with detect_cycles_sound [OF assms Inr] show ?thesis by blast
  qed
qed

theorem C2_witness:
  "distinct (map item_id (tasks (ex_dag [ex_a, ex_b, ex_c])))
   \<and> length (tasks (ex_dag [ex_a, ex_b, ex_c])) < 1000
   \<and> detect_cycles 1000 (ex_dag [ex_a, ex_b, ex_c]) = Inr []
   \<and> acyclic (dep_rel (tasks (ex_dag [ex_a, ex_b, ex_c])))
   \<and> distinct (map item_id (tasks (ex_dag [ex_a_needs_b, ex_b])))
   \<and> length (tasks (ex_dag [ex_a_needs_b, ex_b])) < 1000
   \<and> detect_cycles 1000 (ex_dag [ex_a_needs_b, ex_b]) = Inr [''b -> a'']
   \<and> \<not> acyclic (dep_rel (tasks (ex_dag [ex_a_needs_b, ex_b])))"
proof -
  have d1: "distinct (map item_id (tasks (ex_dag [ex_a, ex_b, ex_c])))"
    by (simp add: ex_defs)
  have l1: "length (tasks (ex_dag [ex_a, ex_b, ex_c])) < 1000" by (simp add: ex_defs)
  have c1: "detect_cycles 1000 (ex_dag [ex_a, ex_b, ex_c]) = Inr []"
    by (simp add: ex_defs dfs_eval)
  have d2: "distinct (map item_id (tasks (ex_dag [ex_a_needs_b, ex_b])))"
    by (simp add: ex_defs)
  have l2: "length (tasks (ex_dag [ex_a_needs_b, ex_b])) < 1000" by (simp add: ex_defs)
  have c2: "detect_cycles 1000 (ex_dag [ex_a_needs_b, ex_b]) = Inr [''b -> a'']"
    by (simp add: ex_defs dfs_eval)
  from C2_detect_cycles_iff_acyclic [OF d1, of 1000] l1 c1
  have a1: "acyclic (dep_rel (tasks (ex_dag [ex_a, ex_b, ex_c])))" by simp
  from C2_detect_cycles_iff_acyclic [OF d2, of 1000] l2 c2
  have a2: "\<not> acyclic (dep_rel (tasks (ex_dag [ex_a_needs_b, ex_b])))" by simp
  from d1 l1 c1 a1 d2 l2 c2 a2 show ?thesis by blast
qed

text \<open>
  Claim C3, as stated, fails in four ways. The task is appended to the record in memory
  before the check, so at the failing exit the record in memory is one task longer than
  before the add. With an id that occurs twice in the project, an add that closes a cycle
  is not rejected but saved. With distinct ids but a new id that is already in use, the
  new dependencies replace the old ones in the dictionary and an add that leaves the
  relation cyclic is saved. And on a chain of 1000 tasks with distinct ids, under the
  default recursion limit, the add of a fresh task that closes the cycle ends in
  \<^verbatim>\<open>RecursionError\<close> instead of the cycle error.
\<close>

theorem C3_counterexample:
  "(\<not> acyclic (dep_rel (tasks (ex_dag []) @ [ex_a_needs_a]))
     \<and> cmd_add 1000 (ex_dag []) ''a'' None None [''a'']
         = Exit (CycleDetected [''a -> a'']) (ex_dag [ex_a_needs_a])
     \<and> length (tasks (memory (cmd_add 1000 (ex_dag []) ''a'' None None [''a'']))) = 1
     \<and> length (tasks (ex_dag [])) = 0)
   \<and> (\<not> acyclic (dep_rel (tasks (ex_dag [ex_a_needs_b, ex_a]) @ [ex_b]))
     \<and> cmd_add 1000 (ex_dag [ex_a_needs_b, ex_a]) ''b'' None None [''a'']
         = Saved (ex_dag [ex_a_needs_b, ex_a, ex_b]) [TaskAdded ''b'' [''a'']])
   \<and> (distinct (map item_id (tasks (ex_dag [ex_a_needs_a])))
     \<and> \<not> acyclic (dep_rel (tasks (ex_dag [ex_a_needs_a]) @ [ex_a]))
     \<and> cmd_add 1000 (ex_dag [ex_a_needs_a]) ''a'' None None []
         = Saved (ex_dag [ex_a_needs_a, ex_a]) [TaskAdded ''a'' []])
   \<and> (distinct (map item_id (tasks (ex_dag (ex_chain 1000))))
     \<and> chain_id 1000 \<notin> item_id ` set (tasks (ex_dag (ex_chain 1000)))
     \<and> \<not> acyclic (dep_rel (tasks (ex_dag (ex_chain 1000)) @
            [make_task (chain_id 1000) [] [] [chain_id 0]]))
     \<and> cmd_add 1000 (ex_dag (ex_chain 1000)) (chain_id 1000) None None [chain_id 0]
         = Raised RecursionError
             (ex_dag (ex_chain 1000 @ [make_task (chain_id 1000) [] [] [chain_id 0]])))"
proof (intro conjI)
  show "\<not> acyclic (dep_rel (tasks (ex_dag []) @ [ex_a_needs_a]))"
    by (rule cyclic_two [of "''a''" "''a''"])
      (simp_all add: dep_rel_def dep_edges_def ex_defs ex_a_needs_a_def)
  show "cmd_add 1000 (ex_dag []) ''a'' None None [''a'']
         = Exit (CycleDetected [''a -> a'']) (ex_dag [ex_a_needs_a])"
    by (simp add: ex_defs ex_a_needs_a_def dfs_eval cmd_add_def)
  then show "length (tasks (memory (cmd_add 1000 (ex_dag []) ''a'' None None [''a'']))) = 1"
    by (simp add: ex_defs)
  show "length (tasks (ex_dag [])) = 0" by (simp add: ex_defs)
  show "\<not> acyclic (dep_rel (tasks (ex_dag [ex_a_needs_b, ex_a]) @ [ex_b]))"
    by (rule cyclic_two [of "''a''" "''b''"]) (simp_all add: dep_rel_def dep_edges_def ex_defs)
  show "cmd_add 1000 (ex_dag [ex_a_needs_b, ex_a]) ''b'' None None [''a'']
         = Saved (ex_dag [ex_a_needs_b, ex_a, ex_b]) [TaskAdded ''b'' [''a'']]"
    by (simp add: ex_defs dfs_eval cmd_add_def)
  show "distinct (map item_id (tasks (ex_dag [ex_a_needs_a])))"
    by (simp add: ex_defs)
  show "\<not> acyclic (dep_rel (tasks (ex_dag [ex_a_needs_a]) @ [ex_a]))"
    by (rule cyclic_two [of "''a''" "''a''"])
      (simp_all add: dep_rel_def dep_edges_def ex_defs ex_a_needs_a_def)
  show "cmd_add 1000 (ex_dag [ex_a_needs_a]) ''a'' None None []
         = Saved (ex_dag [ex_a_needs_a, ex_a]) [TaskAdded ''a'' []]"
    by (simp add: ex_defs ex_a_needs_a_def dfs_eval cmd_add_def)
  show "distinct (map item_id (tasks (ex_dag (ex_chain 1000))))"
    by (simp add: ex_dag_def ex_chain_distinct)
  show "chain_id 1000 \<notin> item_id ` set (tasks (ex_dag (ex_chain 1000)))"
    using ex_chain_fresh [of 1000] by (simp add: ex_dag_def)
  show "\<not> acyclic (dep_rel (tasks (ex_dag (ex_chain 1000)) @
            [make_task (chain_id 1000) [] [] [chain_id 0]]))"
    using ex_chain_closed_cyclic [of 1000 "[]" "[]"] by (simp add: ex_dag_def)
  have "detect_cycles 1000 (ex_dag (ex_chain 1000 @ [make_task (chain_id 1000) [] [] [chain_id 0]]))
          = Inl RecursionError"
    by (rule ex_chain_raises [OF _ _ ex_chain_snoc_distinct]) simp_all
  then show "cmd_add 1000 (ex_dag (ex_chain 1000)) (chain_id 1000) None None [chain_id 0]
         = Raised RecursionError
             (ex_dag (ex_chain 1000 @ [make_task (chain_id 1000) [] [] [chain_id 0]]))"
    by (simp add: cmd_add_def ex_dag_def)
qed

text \<open>
  Claim C3, amended: for every dag-mode project whose task ids are distinct and every
  proposed task with an id not yet in the project, if appending the task would make the
  dependency relation cyclic, then nothing is saved and the project file is unchanged.
  If moreover the number of tasks after the add is smaller than the number of frames that
  the interpreter leaves to \<open>dfs\<close>, \<open>cmd_add\<close> exits with a cycle error whose list of
  edges is not empty; on a longer project it ends either so or in \<^verbatim>\<open>RecursionError\<close>.
  The record in memory at that end is the project with the task appended.
\<close>

theorem C3_cyclic_add_rejected:
  assumes "mode proj = ''dag''"
    and "distinct (map item_id (tasks proj))"
    and "task_id \<notin> item_id ` set (tasks proj)"
    and "\<not> acyclic (dep_rel (tasks proj @
            [make_task task_id (or_empty agent_arg) (or_empty desc_arg) deps]))"
  shows "persisted proj (cmd_add frames proj task_id agent_arg desc_arg deps) = proj
         \<and> (length (tasks proj) + 1 < frames \<longrightarrow>
              (\<exists>cs. cs \<noteq> [] \<and>
                 cmd_add frames proj task_id agent_arg desc_arg deps =
                   Exit (CycleDetected cs)
                     (proj\<lparr>tasks := tasks proj @
                        [make_task task_id (or_empty agent_arg) (or_empty desc_arg) deps]\<rparr>)))
         \<and> (cmd_add frames proj task_id agent_arg desc_arg deps =
               Raised RecursionError
                 (proj\<lparr>tasks := tasks proj @
                    [make_task task_id (or_empty agent_arg) (or_empty desc_arg) deps]\<rparr>)
            \<or> (\<exists>cs. cs \<noteq> [] \<and>
                 cmd_add frames proj task_id agent_arg desc_arg deps =
                   Exit (CycleDetected cs)
                     (proj\<lparr>tasks := tasks proj @
                        [make_task task_id (or_empty agent_arg) (or_empty desc_arg) deps]\<rparr>)))"
proof -
  let ?proj' = "proj\<lparr>tasks := tasks proj @
                   [make_task task_id (or_empty agent_arg) (or_empty desc_arg) deps]\<rparr>"
  have d: "distinct (map item_id (tasks ?proj'))"
    using assms(2,3) by (simp add: make_task_def)
  have nonempty: "cs \<noteq> []" if "detect_cycles frames ?proj' = Inr cs" for cs
    using detect_cycles_sound [OF d that] assms(4) by simp
  have run: "cmd_add frames proj task_id agent_arg desc_arg deps =
      (case detect_cycles frames ?proj' of
         Inl e \<Rightarrow> Raised e ?proj'
       | Inr cs \<Rightarrow> Exit (CycleDetected cs) ?proj')"
    using assms(1) nonempty by (simp add: cmd_add_def Let_def split: sum.split)
  have either: "cmd_add frames proj task_id agent_arg desc_arg deps = Raised RecursionError ?proj'
      \<or> (\<exists>cs. cs \<noteq> [] \<and>
            cmd_add frames proj task_id agent_arg desc_arg deps = Exit (CycleDetected cs) ?proj')"
  proof (cases "detect_cycles frames ?proj'")
    case (Inl e)
    with run show ?thesis by (cases e) simp
  next
    case (Inr cs)
    with run nonempty show ?thesis by simp
  qed
  have deep: "\<exists>cs. cs \<noteq> [] \<and>
      cmd_add frames proj task_id agent_arg desc_arg deps = Exit (CycleDetected cs) ?proj'"
    if "length (tasks proj) + 1 < frames"
  proof -
    from that have "length (tasks ?proj') < frames" by simp
    then obtain cs where "detect_cycles frames ?proj' = Inr cs"
      using detect_cycles_returns by blast
    with run nonempty show ?thesis by simp
  qed
  from either have "persisted proj (cmd_add frames proj task_id agent_arg desc_arg deps) = proj"
    by auto
  with either deep show ?thesis by blast
qed

theorem C3_witness:
  "cmd_add 1000 (ex_dag [ex_a_needs_b]) ''b'' None None [''a'']
     = Exit (CycleDetected [''b -> a'']) (ex_dag [ex_a_needs_b, ex_b])
   \<and> persisted (ex_dag [ex_a_needs_b])
        (cmd_add 1000 (ex_dag [ex_a_needs_b]) ''b'' None None [''a''])
     = ex_dag [ex_a_needs_b]"
proof -
  have m: "mode (ex_dag [ex_a_needs_b]) = ''dag''" by (simp add: ex_defs)
  have d: "distinct (map item_id (tasks (ex_dag [ex_a_needs_b])))" by (simp add: ex_defs)
  have f: "''b'' \<notin> item_id ` set (tasks (ex_dag [ex_a_needs_b]))" by (simp add: ex_defs)
  have c: "\<not> acyclic (dep_rel (tasks (ex_dag [ex_a_needs_b]) @
            [make_task ''b'' (or_empty None) (or_empty None) [''a'']]))"
    by (rule cyclic_two [of "''a''" "''b''"]) (simp_all add: dep_rel_def dep_edges_def ex_defs)
  from C3_cyclic_add_rejected [OF m d f c, of 1000]
  have p: "persisted (ex_dag [ex_a_needs_b])
             (cmd_add 1000 (ex_dag [ex_a_needs_b]) ''b'' None None [''a''])
     = ex_dag [ex_a_needs_b]" by blast
  have "cmd_add 1000 (ex_dag [ex_a_needs_b]) ''b'' None None [''a'']
     = Exit (CycleDetected [''b -> a'']) (ex_dag [ex_a_needs_b, ex_b])"
    by (simp add: ex_defs dfs_eval cmd_add_def)
  with p show ?thesis by simp
qed

section \<open>Status updates\<close>

lemma ex_pipeline_init:
  "cmd_init ''t0'' False False ''p'' ''linear'' None [''x'', ''y'', ''z''] None = Inr ex_pipeline"
  by (simp add: cmd_init_def ex_pipeline_def)

lemma find_item_Some:
  "find_item target items = Some i \<Longrightarrow>
     i < length items \<and> item_id (items ! i) = target \<and> (\<forall>j < i. item_id (items ! j) \<noteq> target)"
proof (induction items arbitrary: i)
  case Nil
  then show ?case by simp
next
  case (Cons item items)
  show ?case
  proof (cases "item_id item = target")
    case True
    with Cons.prems show ?thesis by simp
  next
    case False
    with Cons.prems obtain k where k: "find_item target items = Some k" "i = Suc k"
      by auto
    from Cons.IH [OF k(1)] False k(2) show ?thesis
      by (auto simp: nth_Cons split: nat.splits)
  qed
qed

lemma find_item_None_iff:
  "find_item target items = None \<longleftrightarrow> target \<notin> item_id ` set items"
  by (induction items) auto

text \<open>
  Claim C4, as stated, fails in its last part: in the fresh pipeline \<open>x, y, z\<close> the
  cursor is 0; setting the last stage \<open>z\<close> to done is saved and leaves the cursor at 0,
  not at the length 3.
\<close>

theorem C4_counterexample:
  "find_item ''z'' (stages ex_pipeline) = Some 2
   \<and> length (stages ex_pipeline) = 3
   \<and> current_stage ex_pipeline = 0
   \<and> cmd_update ''t1'' ex_pipeline ''z'' ''done'' =
       Saved (ex_pipeline\<lparr>stages :=
                [make_stage ''x'' [] [], make_stage ''y'' [] [],
                 (make_stage ''z'' [] [])\<lparr>status := ''done'', completed_at := ''t1''\<rparr>]\<rparr>)
             [StatusUpdated ''z'' ''done'']
   \<and> current_stage (persisted ex_pipeline (cmd_update ''t1'' ex_pipeline ''z'' ''done'')) = 0"
  by (simp add: ex_pipeline_def make_stage_def cmd_update_def VALID_STATUSES_def
        set_item_status_def)

text \<open>
  Claim C4, amended. In a linear-mode project let \<open>i\<close> be the index of the stage that
  \<open>cmd_update\<close> sets, the first one that carries the given id. Setting it to done is
  saved, and: if \<open>i\<close> equals the cursor, the cursor grows by exactly one and the id of
  stage \<open>i + 1\<close> is printed as the advance notice when that stage exists; if \<open>i\<close>
  differs from the cursor, the cursor is unchanged and no notice is printed; if the stage
  is the last one and the cursor points at it, the cursor ends equal to the number of
  stages and no notice is printed.
\<close>

theorem C4_linear_auto_advance:
  assumes "mode proj = ''linear''" and "find_item target_id (stages proj) = Some i"
  shows "\<exists>proj' msgs.
           cmd_update now proj target_id ''done'' = Saved proj' msgs
         \<and> status (stages proj' ! i) = ''done''
         \<and> (int i = current_stage proj \<longrightarrow>
               current_stage proj' = current_stage proj + 1
             \<and> msgs = (if i + 1 < length (stages proj)
                       then [AutoAdvance (item_id (stages proj ! (i + 1)))] else [])
                      @ [StatusUpdated target_id ''done''])
         \<and> (int i \<noteq> current_stage proj \<longrightarrow>
               current_stage proj' = current_stage proj
             \<and> msgs = [StatusUpdated target_id ''done''])
         \<and> (int i = current_stage proj \<and> i + 1 = length (stages proj) \<longrightarrow>
               current_stage proj' = int (length (stages proj))
             \<and> msgs = [StatusUpdated target_id ''done''])"
proof -
  from find_item_Some [OF assms(2)] have i: "i < length (stages proj)" by simp
  show ?thesis
  proof (cases "int i = current_stage proj")
    case True
    with assms i show ?thesis
      by (auto simp add: cmd_update_def VALID_STATUSES_def Let_def set_item_status_def)
  next
    case False
    with assms i show ?thesis
      by (simp add: cmd_update_def VALID_STATUSES_def Let_def set_item_status_def)
  qed
qed

theorem C4_witness:
  "cmd_update ''t1'' ex_pipeline ''x'' ''done'' =
       Saved (ex_pipeline\<lparr>stages :=
                [(make_stage ''x'' [] [])\<lparr>status := ''done'', completed_at := ''t1''\<rparr>,
                 make_stage ''y'' [] [], make_stage ''z'' [] []],
                current_stage := 1\<rparr>)
             [AutoAdvance ''y'', StatusUpdated ''x'' ''done'']"
  using C4_linear_auto_advance [of ex_pipeline "''x''" 0 "''t1''"]
  by (simp add: ex_pipeline_def make_stage_def cmd_update_def VALID_STATUSES_def
        set_item_status_def)

lemma done_ids_update_mono:
  assumes "i < length ts"
  shows "done_ids ts \<subseteq> done_ids (ts[i := set_item_status now ''done'' (ts ! i)])"
proof
  fix d assume "d \<in> done_ids ts"
  then obtain u where u: "u \<in> set ts" "item_id u = d" "status u = ''done''"
    by (auto simp: done_ids_iff)
  then obtain j where j: "j < length ts" "ts ! j = u" by (auto simp: in_set_conv_nth)
  let ?ts' = "ts[i := set_item_status now ''done'' (ts ! i)]"
  have "item_id (?ts' ! j) = d \<and> status (?ts' ! j) = ''done''"
    using j u assms by (cases "j = i") (simp_all add: set_item_status_def)
  moreover have "?ts' ! j \<in> set ?ts'" using j by simp
  ultimately show "d \<in> done_ids ?ts'" unfolding done_ids_iff by blast
qed

text \<open>
  Claim C6. In a dag-mode project, setting an existing task (the first one with the given
  id, at index \<open>i\<close>) to done is saved, and the unlock line that is printed lists the ids
  of all of \<open>compute_ready_tasks\<close> on the record after the change, in task order (no
  line when that list is empty). Nothing is filtered: every task that was ready before
  and is not the one set to done is in the list again.
\<close>

theorem C6_unlock_is_full_ready_set:
  assumes "mode proj = ''dag''" and "find_item target_id (tasks proj) = Some i"
  shows "\<exists>proj'.
           cmd_update now proj target_id ''done'' =
             Saved proj'
               ((if compute_ready_tasks proj' = [] then []
                 else [NewlyUnlocked (map item_id (compute_ready_tasks proj'))])
                @ [StatusUpdated target_id ''done''])
         \<and> tasks proj' = (tasks proj)[i := (tasks proj ! i)\<lparr>status := ''done'', completed_at := now\<rparr>]
         \<and> (\<forall>t \<in> set (compute_ready_tasks proj).
               item_id t \<noteq> target_id \<longrightarrow> t \<in> set (compute_ready_tasks proj'))"
proof -
  let ?ts = "tasks proj"
  let ?ts' = "?ts[i := set_item_status now ''done'' (?ts ! i)]"
  let ?proj' = "proj\<lparr>tasks := ?ts'\<rparr>"
  from find_item_Some [OF assms(2)] have i: "i < length ?ts" "item_id (?ts ! i) = target_id"
    by simp_all
  have run: "cmd_update now proj target_id ''done'' =
             Saved ?proj'
               ((if compute_ready_tasks ?proj' = [] then []
                 else [NewlyUnlocked (map item_id (compute_ready_tasks ?proj'))])
                @ [StatusUpdated target_id ''done''])"
    using assms by (simp add: cmd_update_def VALID_STATUSES_def Let_def)
  have upd: "tasks ?proj' = ?ts[i := (?ts ! i)\<lparr>status := ''done'', completed_at := now\<rparr>]"
    by (simp add: set_item_status_def)
  have keep: "t \<in> set (compute_ready_tasks ?proj')"
    if t: "t \<in> set (compute_ready_tasks proj)" and ne: "item_id t \<noteq> target_id" for t
  proof -
    from t have t1: "t \<in> set ?ts" "status t = ''pending''" "set (dependencies t) \<subseteq> done_ids ?ts"
      by (auto simp: compute_ready_tasks_def ready_loop_filter)
    from t1(1) obtain j where j: "j < length ?ts" "?ts ! j = t" by (auto simp: in_set_conv_nth)
    with ne i have "j \<noteq> i" by auto
    with j have "?ts' ! j = t" "j < length ?ts'" by simp_all
    then have "t \<in> set ?ts'" by (metis nth_mem)
    moreover from t1(3) done_ids_update_mono [OF i(1)] have "set (dependencies t) \<subseteq> done_ids ?ts'"
      by blast
    ultimately show ?thesis using t1(2)
      by (simp add: compute_ready_tasks_def ready_loop_filter)
  qed
  from run upd keep show ?thesis by blast
qed

theorem C6_witness:
  "cmd_update ''t1'' (ex_dag [ex_a, ex_b, ex_c\<lparr>dependencies := []\<rparr>]) ''a'' ''done'' =
     Saved (ex_dag [ex_a\<lparr>status := ''done'', completed_at := ''t1''\<rparr>, ex_b,
                    ex_c\<lparr>dependencies := []\<rparr>])
       [NewlyUnlocked [''b'', ''c''], StatusUpdated ''a'' ''done'']
   \<and> compute_ready_tasks (ex_dag [ex_a, ex_b, ex_c\<lparr>dependencies := []\<rparr>])
       = [ex_a, ex_c\<lparr>dependencies := []\<rparr>]"
proof -
  let ?p = "ex_dag [ex_a, ex_b, ex_c\<lparr>dependencies := []\<rparr>]"
  have m: "mode ?p = ''dag''" by (simp add: ex_defs)
  have f: "find_item ''a'' (tasks ?p) = Some 0" by (simp add: ex_defs)
  have r: "compute_ready_tasks ?p = [ex_a, ex_c\<lparr>dependencies := []\<rparr>]"
    by (simp add: ex_defs compute_ready_tasks_def done_ids_iff)
  from C6_unlock_is_full_ready_set [OF m f, of "''t1''"]
  obtain proj' where p: "cmd_update ''t1'' ?p ''a'' ''done'' =
             Saved proj'
               ((if compute_ready_tasks proj' = [] then []
                 else [NewlyUnlocked (map item_id (compute_ready_tasks proj'))])
                @ [StatusUpdated ''a'' ''done''])"
    and t: "tasks proj' = (tasks ?p)[0 := (tasks ?p ! 0)\<lparr>status := ''done'', completed_at := ''t1''\<rparr>]"
    by blast
  have "proj' = memory (cmd_update ''t1'' ?p ''a'' ''done'')" by (simp add: p)
  also have "\<dots> = ex_dag [ex_a\<lparr>status := ''done'', completed_at := ''t1''\<rparr>, ex_b,
                    ex_c\<lparr>dependencies := []\<rparr>]"
    by (simp add: ex_defs cmd_update_def VALID_STATUSES_def set_item_status_def Let_def)
  finally have proj': "proj' = ex_dag [ex_a\<lparr>status := ''done'', completed_at := ''t1''\<rparr>, ex_b,
                    ex_c\<lparr>dependencies := []\<rparr>]" .
  have "compute_ready_tasks proj' = [ex_b, ex_c\<lparr>dependencies := []\<rparr>]"
    unfolding proj' by (simp add: ex_defs compute_ready_tasks_def done_ids_iff)
  with p proj' r show ?thesis by (simp add: ex_defs)
qed

section \<open>Recording a result\<close>

text \<open>
  Claim C7. \<open>cmd_result\<close> works on the stages of a linear project and on the tasks of
  any other. If no item carries the id it exits with the not-found error and the record
  as loaded. Otherwise the item it changes is the first one with the id: its result
  becomes the given text in every case, and exactly when its status is pending the status
  becomes in-progress and \<open>assigned_at\<close> the current time; otherwise both keep their
  values.
\<close>

theorem C7_record_result:
  "(mode proj = ''linear'' \<longrightarrow>
      (if target_id \<in> item_id ` set (stages proj)
       then \<exists>i. find_item target_id (stages proj) = Some i \<and>
              cmd_result now proj target_id result_text =
                Saved (proj\<lparr>stages := (stages proj)[i :=
                         (stages proj ! i)\<lparr>result := result_text,
                            status := (if status (stages proj ! i) = ''pending''
                                       then ''in-progress'' else status (stages proj ! i)),
                            assigned_at := (if status (stages proj ! i) = ''pending''
                                            then now else assigned_at (stages proj ! i))\<rparr>]\<rparr>)
                      [ResultRecorded target_id (length result_text)]
       else cmd_result now proj target_id result_text = Exit (NotFound target_id) proj))
   \<and> (mode proj \<noteq> ''linear'' \<longrightarrow>
      (if target_id \<in> item_id ` set (tasks proj)
       then \<exists>i. find_item target_id (tasks proj) = Some i \<and>
              cmd_result now proj target_id result_text =
                Saved (proj\<lparr>tasks := (tasks proj)[i :=
                         (tasks proj ! i)\<lparr>result := result_text,
                            status := (if status (tasks proj ! i) = ''pending''
                                       then ''in-progress'' else status (tasks proj ! i)),
                            assigned_at := (if status (tasks proj ! i) = ''pending''
                                            then now else assigned_at (tasks proj ! i))\<rparr>]\<rparr>)
                      [ResultRecorded target_id (length result_text)]
       else cmd_result now proj target_id result_text = Exit (NotFound target_id) proj))"
proof -
  have lin: "find_item target_id (stages proj) = None"
    if "target_id \<notin> item_id ` set (stages proj)"
    using that by (simp add: find_item_None_iff)
  have lin': "\<exists>i. find_item target_id (stages proj) = Some i"
    if "target_id \<in> item_id ` set (stages proj)"
    using that find_item_None_iff [of target_id "stages proj"] by auto
  have dag: "find_item target_id (tasks proj) = None"
    if "target_id \<notin> item_id ` set (tasks proj)"
    using that by (simp add: find_item_None_iff)
  have dag': "\<exists>i. find_item target_id (tasks proj) = Some i"
    if "target_id \<in> item_id ` set (tasks proj)"
    using that find_item_None_iff [of target_id "tasks proj"] by auto
  show ?thesis
  proof (intro conjI impI)
    assume m: "mode proj = ''linear''"
    show "if target_id \<in> item_id ` set (stages proj)
       then \<exists>i. find_item target_id (stages proj) = Some i \<and>
              cmd_result now proj target_id result_text =
                Saved (proj\<lparr>stages := (stages proj)[i :=
                         (stages proj ! i)\<lparr>result := result_text,
                            status := (if status (stages proj ! i) = ''pending''
                                       then ''in-progress'' else status (stages proj ! i)),
                            assigned_at := (if status (stages proj ! i) = ''pending''
                                            then now else assigned_at (stages proj ! i))\<rparr>]\<rparr>)
                      [ResultRecorded target_id (length result_text)]
       else cmd_result now proj target_id result_text = Exit (NotFound target_id) proj"
    proof (cases "target_id \<in> item_id ` set (stages proj)")
      case True
      from lin' [OF True] obtain i where "find_item target_id (stages proj) = Some i" ..
      with m True show ?thesis by (simp add: cmd_result_def record_item_def)
    next
      case False
      with m lin show ?thesis by (simp add: cmd_result_def)
    qed
  next
    assume m: "mode proj \<noteq> ''linear''"
    show "if target_id \<in> item_id ` set (tasks proj)
       then \<exists>i. find_item target_id (tasks proj) = Some i \<and>
              cmd_result now proj target_id result_text =
                Saved (proj\<lparr>tasks := (tasks proj)[i :=
                         (tasks proj ! i)\<lparr>result := result_text,
                            status := (if status (tasks proj ! i) = ''pending''
                                       then ''in-progress'' else status (tasks proj ! i)),
                            assigned_at := (if status (tasks proj ! i) = ''pending''
                                            then now else assigned_at (tasks proj ! i))\<rparr>]\<rparr>)
                      [ResultRecorded target_id (length result_text)]
       else cmd_result now proj target_id result_text = Exit (NotFound target_id) proj"
    proof (cases "target_id \<in> item_id ` set (tasks proj)")
      case True
      from dag' [OF True] obtain i where "find_item target_id (tasks proj) = Some i" ..
      with m True show ?thesis by (simp add: cmd_result_def record_item_def)
    next
      case False
      with m dag show ?thesis by (simp add: cmd_result_def)
    qed
  qed
qed

theorem C7_witness:
  "cmd_result ''t1'' ex_pipeline ''y'' ''out'' =
     Saved (ex_pipeline\<lparr>stages :=
              [make_stage ''x'' [] [],
               (make_stage ''y'' [] [])\<lparr>result := ''out'', status := ''in-progress'',
                                         assigned_at := ''t1''\<rparr>,
               make_stage ''z'' [] []]\<rparr>)
           [ResultRecorded ''y'' 3]
   \<and> cmd_result ''t1'' (ex_dag [ex_a\<lparr>status := ''done''\<rparr>]) ''a'' ''out'' =
     Saved (ex_dag [ex_a\<lparr>status := ''done'', result := ''out''\<rparr>]) [ResultRecorded ''a'' 3]
   \<and> cmd_result ''t1'' (ex_dag [ex_a]) ''nope'' ''out'' = Exit (NotFound ''nope'') (ex_dag [ex_a])"
  using C7_record_result [where proj = ex_pipeline and target_id = "''y''" and now = "''t1''"
      and result_text = "''out''"]
    C7_record_result [where proj = "ex_dag [ex_a\<lparr>status := ''done''\<rparr>]" and target_id = "''a''"
      and now = "''t1''" and result_text = "''out''"]
    C7_record_result [where proj = "ex_dag [ex_a]" and target_id = "''nope''" and now = "''t1''"
      and result_text = "''out''"]
  by (simp add: ex_pipeline_def make_stage_def ex_dag_def ex_a_def make_task_def)

text \<open>
  Claim C10. When the item that \<open>cmd_result\<close> finds (the first one with the id, at index
  \<open>i\<close>) has a status other than pending, the saved record is the loaded one with the
  result field of that item replaced and nothing else: status, \<open>assigned_at\<close>,
  \<open>completed_at\<close> and the other fields of the item, every other stage or task and every
  other part of the project are as before.
\<close>

theorem C10_record_result_frame:
  "(mode proj = ''linear'' \<and> find_item target_id (stages proj) = Some i
      \<and> status (stages proj ! i) \<noteq> ''pending'' \<longrightarrow>
      cmd_result now proj target_id result_text =
        Saved (proj\<lparr>stages := (stages proj)[i := (stages proj ! i)\<lparr>result := result_text\<rparr>]\<rparr>)
              [ResultRecorded target_id (length result_text)])
   \<and> (mode proj \<noteq> ''linear'' \<and> find_item target_id (tasks proj) = Some i
      \<and> status (tasks proj ! i) \<noteq> ''pending'' \<longrightarrow>
      cmd_result now proj target_id result_text =
        Saved (proj\<lparr>tasks := (tasks proj)[i := (tasks proj ! i)\<lparr>result := result_text\<rparr>]\<rparr>)
              [ResultRecorded target_id (length result_text)])"
  by (simp add: cmd_result_def record_item_def)

theorem C10_witness:
  "cmd_result ''t1'' (ex_dag [ex_a, ex_b\<lparr>status := ''failed'', completed_at := ''t0''\<rparr>]) ''b'' ''out'' =
     Saved (ex_dag [ex_a, ex_b\<lparr>status := ''failed'', completed_at := ''t0'', result := ''out''\<rparr>])
       [ResultRecorded ''b'' 3]"
  using C10_record_result_frame
    [where proj = "ex_dag [ex_a, ex_b\<lparr>status := ''failed'', completed_at := ''t0''\<rparr>]"
       and target_id = "''b''" and i = 1 and now = "''t1''" and result_text = "''out''"]
  by (simp add: ex_dag_def ex_a_def ex_b_def make_task_def)

section \<open>Debate rounds\<close>

lemma ex_debate_init:
  "cmd_init ''t0'' False False ''d'' ''debate'' (Some ''q'') [] None = Inr ex_debate"
  by (simp add: cmd_init_def ex_debate_def)

text \<open>
  Claim C8. In a debate-mode project \<^verbatim>\<open>round start\<close> always succeeds: it saves the
  project with one more round at the end, whose number is the previous number of rounds
  plus one, whose phase is initial and which has no responses, and prints that number.
  The phases of the rounds already there play no part, so the first start gives round 1
  and the second gives round 2.
\<close>

theorem C8_start_round:
  assumes "mode proj = ''debate''"
  shows "cmd_round now proj ''start'' debater_arg text_arg =
           Saved (proj\<lparr>rounds := rounds proj @
                    [\<lparr>round_number = length (rounds proj) + 1, phase = ''initial'',
                      started_at = now, responses = []\<rparr>]\<rparr>)
                 [RoundStarted (length (rounds proj) + 1)
                    (case question proj of Some q \<Rightarrow> q | None \<Rightarrow> goal proj)
                    (length (debaters proj))]
         \<and> (rounds proj = [] \<longrightarrow>
               round_number (last (rounds (persisted proj
                 (cmd_round now proj ''start'' debater_arg text_arg)))) = 1)
         \<and> (\<forall>r. rounds proj = [r] \<longrightarrow>
               round_number (last (rounds (persisted proj
                 (cmd_round now proj ''start'' debater_arg text_arg)))) = 2)"
  using assms by (simp add: cmd_round_def)

theorem C8_witness:
  "round_number (last (rounds (run_commands 1000 ex_debate [(''t1'', Round ''start'' None None)]))) = 1
   \<and> map round_number (rounds (run_commands 1000 ex_debate
        [(''t1'', Round ''start'' None None), (''t2'', Round ''synthesize'' None None),
         (''t3'', Round ''start'' None None)])) = [1, 2]
   \<and> map phase (rounds (run_commands 1000 ex_debate
        [(''t1'', Round ''start'' None None), (''t2'', Round ''synthesize'' None None),
         (''t3'', Round ''start'' None None)])) = [''synthesis'', ''initial'']
   \<and> map round_number (rounds (run_commands 1000 ex_debate
        [(''t1'', Round ''start'' None None), (''t3'', Round ''start'' None None)])) = [1, 2]"
  using C8_start_round [where proj = ex_debate and now = "''t1''" and debater_arg = None
      and text_arg = None]
  by (simp add: ex_debate_def cmd_round_def set_current_phase_def)

lemma rounds_progress_refl: "rounds_progress rs rs"
  by (simp add: rounds_progress_def)

lemma rounds_progress_trans:
  "rounds_progress rs rs' \<Longrightarrow> rounds_progress rs' rs'' \<Longrightarrow> rounds_progress rs rs''"
  unfolding rounds_progress_def by (auto simp: less_le_trans)

lemma rounds_progress_append: "rounds_progress rs (rs @ xs)"
  by (simp add: rounds_progress_def nth_append)

lemma rounds_progress_update_last:
  assumes "phase r = ''initial'' \<longrightarrow> phase (last rs) = ''initial''"
  shows "rounds_progress rs (rs[length rs - Suc 0 := r])"
proof (cases "rs = []")
  case True
  then show ?thesis by (simp add: rounds_progress_def)
next
  case False
  then have "last rs = rs ! (length rs - 1)" by (rule last_conv_nth)
  with assms False show ?thesis
    by (auto simp: rounds_progress_def nth_list_update)
qed

lemma rounds_progress_command:
  assumes "c \<noteq> Reset"
  shows "rounds_progress (rounds proj) (rounds (persisted proj (run_command frames now proj c)))"
proof (cases c)
  case (Add task_id agent_arg desc_arg deps)
  then show ?thesis
    by (simp add: cmd_add_def Let_def rounds_progress_refl split: sum.split)
next
  case (AddDebater did agent_arg perspective_arg)
  then show ?thesis by (simp add: cmd_add_debater_def Let_def rounds_progress_refl)
next
  case (Update target_id st)
  then show ?thesis
    by (simp add: cmd_update_def Let_def rounds_progress_refl split: option.split)
next
  case (Result target_id result_text)
  then show ?thesis
    by (simp add: cmd_result_def rounds_progress_refl split: option.split)
next
  case (Round action debater_arg text_arg)
  then show ?thesis
    by (simp add: cmd_round_def Let_def set_current_phase_def rounds_progress_refl
          rounds_progress_append rounds_progress_update_last)
next
  case Reset
  with assms show ?thesis by simp
qed

lemma rounds_progress_commands:
  "Reset \<notin> snd ` set cs \<Longrightarrow>
     rounds_progress (rounds proj) (rounds (run_commands frames proj cs))"
proof (induction cs arbitrary: proj)
  case Nil
  show ?case by (simp add: rounds_progress_refl)
next
  case (Cons nc cs)
  obtain now c where nc: "nc = (now, c)" by (cases nc)
  with Cons.prems have c: "c \<noteq> Reset" and cs: "Reset \<notin> snd ` set cs" by auto
  from rounds_progress_command [OF c]
  have "rounds_progress (rounds proj) (rounds (persisted proj (run_command frames now proj c)))" .
  moreover from Cons.IH [OF cs]
  have "rounds_progress (rounds (persisted proj (run_command frames now proj c)))
          (rounds (run_commands frames (persisted proj (run_command frames now proj c)) cs))" .
  ultimately show ?case unfolding nc by (simp add: rounds_progress_trans)
qed

text \<open>
  Claim C5, as stated, fails: \<^verbatim>\<open>round cross-review\<close> sets the phase of the current round
  without looking at it. After start, cross-review and synthesize the round is in phase
  synthesis; one more cross-review puts it back to cross-review.
\<close>

theorem C5_counterexample:
  "map phase (rounds (run_commands 1000 ex_debate
      [(''t1'', Round ''start'' None None), (''t2'', Round ''cross-review'' None None),
       (''t3'', Round ''synthesize'' None None)])) = [''synthesis'']
   \<and> map phase (rounds (run_commands 1000 ex_debate
      [(''t1'', Round ''start'' None None), (''t2'', Round ''cross-review'' None None),
       (''t3'', Round ''synthesize'' None None), (''t4'', Round ''cross-review'' None None)]))
      = [''cross-review'']
   \<and> phase_rank ''cross-review'' < phase_rank ''synthesis''"
  by (simp add: ex_debate_def cmd_round_def set_current_phase_def phase_rank_def)

text \<open>
  Claim C5, amended. Under every sequence of commands without \<^verbatim>\<open>reset\<close> (which drops
  all rounds), every round stays at its position, a round whose phase is not initial
  never gets the phase initial again, and a round that is not the most recent one never
  changes. The two phase-advance operations set the phase of the most recent round to
  their own target whatever it was, and leave the phases of the other rounds alone:
  \<^verbatim>\<open>synthesize\<close> to synthesis, which is never a step back, and \<^verbatim>\<open>cross-review\<close> to
  cross-review, which is a step back for a round in synthesis.
\<close>

theorem C5_phase_progress:
  "(Reset \<notin> snd ` set cs \<and> i < length (rounds proj) \<longrightarrow>
      i < length (rounds (run_commands frames proj cs))
    \<and> (phase (rounds (run_commands frames proj cs) ! i) = ''initial''
         \<longrightarrow> phase (rounds proj ! i) = ''initial'')
    \<and> (i + 1 < length (rounds proj) \<longrightarrow> rounds (run_commands frames proj cs) ! i = rounds proj ! i))
   \<and> (mode proj = ''debate'' \<and> rounds proj \<noteq> [] \<longrightarrow>
      map phase (rounds (persisted proj (cmd_round now proj ''synthesize'' debater_arg text_arg)))
        = map phase (butlast (rounds proj)) @ [''synthesis'']
    \<and> map phase (rounds (persisted proj (cmd_round now proj ''cross-review'' debater_arg text_arg)))
        = map phase (butlast (rounds proj)) @ [''cross-review''])"
proof -
  have seq: "i < length (rounds (run_commands frames proj cs))
    \<and> (phase (rounds (run_commands frames proj cs) ! i) = ''initial''
         \<longrightarrow> phase (rounds proj ! i) = ''initial'')
    \<and> (i + 1 < length (rounds proj) \<longrightarrow> rounds (run_commands frames proj cs) ! i = rounds proj ! i)"
    if a: "Reset \<notin> snd ` set cs \<and> i < length (rounds proj)"
  proof -
    from a have "rounds_progress (rounds proj) (rounds (run_commands frames proj cs))"
      by (simp add: rounds_progress_commands)
    with a show ?thesis by (simp add: rounds_progress_def)
  qed
  have upd: "map phase (set_current_phase ph rs) = map phase (butlast rs) @ [ph]"
    if "rs \<noteq> []" for ph rs
  proof -
    from that obtain ys y where rs: "rs = ys @ [y]" by (metis rev_exhaust)
    show ?thesis by (simp add: rs set_current_phase_def)
  qed
  have adv: "map phase (rounds (persisted proj (cmd_round now proj ''synthesize'' debater_arg text_arg)))
        = map phase (butlast (rounds proj)) @ [''synthesis'']
    \<and> map phase (rounds (persisted proj (cmd_round now proj ''cross-review'' debater_arg text_arg)))
        = map phase (butlast (rounds proj)) @ [''cross-review'']"
    if b: "mode proj = ''debate'' \<and> rounds proj \<noteq> []"
    using b by (simp add: cmd_round_def Let_def upd)
  from seq adv show ?thesis by blast
qed

theorem C5_witness:
  "map phase (rounds (run_commands 1000 ex_debate
      [(''t1'', Round ''start'' None None), (''t2'', Round ''cross-review'' None None),
       (''t3'', Round ''start'' None None), (''t4'', Round ''synthesize'' None None)]))
     = [''cross-review'', ''synthesis'']"
  using C5_phase_progress
    [where proj = "run_commands 1000 ex_debate
         [(''t1'', Round ''start'' None None), (''t2'', Round ''cross-review'' None None),
          (''t3'', Round ''start'' None None)]"
       and cs = "[(''t4'', Round ''synthesize'' None None)]" and i = 0 and now = "''t4''"
       and debater_arg = None and text_arg = None]
  by (simp add: ex_debate_def cmd_round_def set_current_phase_def)

section \<open>Task ids\<close>

lemma item_ids_update:
  assumes "\<And>x. item_id (f x) = item_id x"
  shows "map item_id (xs[i := f (xs ! i)]) = map item_id xs"
proof (cases "i < length xs")
  case True
  then show ?thesis by (simp add: map_update assms list_update_same_conv)
next
  case False
  then have "length xs \<le> i" by arith
  then have "xs[i := f (xs ! i)] = xs" by (rule list_update_beyond)
  then show ?thesis by (rule arg_cong)
qed

lemma item_id_set_item_status [simp]: "item_id (set_item_status now st x) = item_id x"
  by (simp add: set_item_status_def Let_def)

lemma item_id_record_item [simp]: "item_id (record_item now txt x) = item_id x"
  by (simp add: record_item_def Let_def)

lemma item_id_reset_item [simp]: "item_id (reset_item x) = item_id x"
  by (simp add: reset_item_def)

lemma task_ids_after_command:
  "map item_id (tasks (persisted proj (run_command frames now proj c))) =
     (case c of
        Add task_id agent_arg desc_arg deps \<Rightarrow>
          (case cmd_add frames proj task_id agent_arg desc_arg deps of
             Saved p ms \<Rightarrow> map item_id (tasks proj) @ [task_id]
           | _ \<Rightarrow> map item_id (tasks proj))
      | _ \<Rightarrow> map item_id (tasks proj))"
proof (cases c)
  case (Add task_id agent_arg desc_arg deps)
  then show ?thesis
    by (simp add: cmd_add_def Let_def make_task_def split: sum.split)
next
  case (AddDebater did agent_arg perspective_arg)
  then show ?thesis by (simp add: cmd_add_debater_def Let_def)
next
  case (Update target_id st)
  then show ?thesis
    by (simp add: cmd_update_def Let_def item_ids_update split: option.split)
next
  case (Result target_id result_text)
  then show ?thesis
    by (simp add: cmd_result_def item_ids_update split: option.split)
next
  case (Round action debater_arg text_arg)
  then show ?thesis by (simp add: cmd_round_def Let_def)
next
  case Reset
  then show ?thesis by (simp add: cmd_reset_def comp_def)
qed

text \<open>
  Claim C9, as stated, fails: \<open>cmd_add\<close> does not compare the new id with the ids in the
  project, so adding \<open>a\<close> to a project that has a task \<open>a\<close> is saved and gives two
  tasks with that id.
\<close>

theorem C9_counterexample:
  "distinct (map item_id (tasks (ex_dag [ex_a])))
   \<and> run_command 1000 ''t1'' (ex_dag [ex_a]) (Add ''a'' None None []) =
       Saved (ex_dag [ex_a, ex_a]) [TaskAdded ''a'' []]
   \<and> \<not> distinct (map item_id (tasks (ex_dag [ex_a, ex_a])))"
  by (simp add: ex_dag_def ex_a_def make_task_def cmd_add_def detect_cycles_def tasks_dict_def
        dict_get_def dfs.simps dfs_deps.simps Let_def)

text \<open>
  Claim C9, amended: every command keeps the task ids of the project file distinct,
  provided that an \<^verbatim>\<open>add\<close> is given an id that no task of the project carries.
\<close>

theorem C9_task_ids_stay_distinct:
  assumes "distinct (map item_id (tasks proj))"
    and "\<forall>task_id agent_arg desc_arg deps.
           c = Add task_id agent_arg desc_arg deps \<longrightarrow> task_id \<notin> item_id ` set (tasks proj)"
  shows "distinct (map item_id (tasks (persisted proj (run_command frames now proj c))))"
  unfolding task_ids_after_command using assms
  by (auto split: command.split outcome.split)

theorem C9_witness:
  "distinct (map item_id (tasks (persisted (ex_dag [ex_a])
      (run_command 1000 ''t1'' (ex_dag [ex_a]) (Add ''b'' None None [''a'']))))) 
   \<and> persisted (ex_dag [ex_a]) (run_command 1000 ''t1'' (ex_dag [ex_a]) (Add ''b'' None None [''a'']))
      = ex_dag [ex_a, ex_b]"
proof -
  have d: "distinct (map item_id (tasks (ex_dag [ex_a])))"
    by (simp add: ex_dag_def)
  have f: "\<forall>task_id agent_arg desc_arg deps.
           Add ''b'' None None [''a''] = Add task_id agent_arg desc_arg deps
             \<longrightarrow> task_id \<notin> item_id ` set (tasks (ex_dag [ex_a]))"
    by (simp add: ex_dag_def ex_a_def make_task_def)
  have "persisted (ex_dag [ex_a]) (run_command 1000 ''t1'' (ex_dag [ex_a]) (Add ''b'' None None [''a'']))
      = ex_dag [ex_a, ex_b]"
    by (simp add: ex_dag_def ex_a_def ex_b_def make_task_def cmd_add_def detect_cycles_def
          tasks_dict_def dict_get_def dfs.simps dfs_deps.simps Let_def)
  with C9_task_ids_stay_distinct [OF d f, where frames = 1000 and now = "''t1''"]
  show ?thesis by simp
qed

end
